theory Spec2Isabelle
  imports Complex_Main
begin

section \<open>JSON values as Python sees them\<close>

text \<open>
  The values that \<open>json.loads\<close> produces: \<open>None\<close>, \<open>bool\<close>, \<open>int\<close>, \<open>float\<close>,
  \<open>str\<close>, \<open>list\<close> and \<open>dict\<close> with string keys.  A dict is an association list read
  with \<open>map_of\<close>.
\<close>

datatype pyfloat = Finite real | PosInf | NegInf | NaN

datatype json =
    JNull
  | JBool bool
  | JInt int
  | JFloat pyfloat
  | JStr string
  | JArr "json list"
  | JObj "(string \<times> json) list"

text \<open>Python truthiness (\<open>bool(v)\<close>) of such a value.\<close>

fun truthy :: "json \<Rightarrow> bool" where
  "truthy JNull = False"
| "truthy (JBool b) = b"
| "truthy (JInt n) = (n \<noteq> 0)"
| "truthy (JFloat f) = (f \<noteq> Finite 0)"
| "truthy (JStr s) = (s \<noteq> [])"
| "truthy (JArr xs) = (xs \<noteq> [])"
| "truthy (JObj kvs) = (kvs \<noteq> [])"

text \<open>\<open>isinstance(v, dict)\<close>.\<close>

fun is_dict :: "json \<Rightarrow> bool" where
  "is_dict (JObj kvs) = True"
| "is_dict v = False"

datatype py_error =
    JavaScriptError json
  | AttributeError
  | KeyError string
  | TypeError
  | UnicodeDecodeError
  | UnicodeEncodeError
  | ValueError
  | JSONDecodeError
  | RecursionError
  | RuntimeError

text \<open>
  \<open>v.get(k, False)\<close>: on a dict the value stored under \<open>k\<close>, or \<open>False\<close> when the key is
  absent; every other JSON value has no attribute \<open>get\<close>.
\<close>

fun py_get :: "json \<Rightarrow> string \<Rightarrow> py_error + json" where
  "py_get (JObj kvs) k = (case map_of kvs k of None \<Rightarrow> Inr (JBool False) | Some x \<Rightarrow> Inr x)"
| "py_get v k = Inl AttributeError"

text \<open>
  \<open>v[k]\<close> with a string key: a dict raises \<open>KeyError\<close> on a missing key; lists and
  strings refuse a string index and the other values are not subscriptable, both a
  \<open>TypeError\<close>.
\<close>

fun py_index :: "json \<Rightarrow> string \<Rightarrow> py_error + json" where
  "py_index (JObj kvs) k = (case map_of kvs k of None \<Rightarrow> Inl (KeyError k) | Some x \<Rightarrow> Inr x)"
| "py_index v k = Inl TypeError"

section \<open>Bytes, text and lines\<close>

text \<open>
  The pipes carry bytes (\<open>char\<close> is a byte); a Python \<open>str\<close> is a list of code points.
  \<open>utf8_decode\<close> is \<open>bytes.decode("utf-8")\<close> in strict mode: \<open>None\<close> stands for the
  \<open>UnicodeDecodeError\<close> raised on an invalid start byte, a bad or missing continuation
  byte, an overlong form, a surrogate or a code point above \<open>U+10FFFF\<close>.
\<close>

type_synonym bytes = "char list"
type_synonym pystr = "nat list"

definition cont :: "nat \<Rightarrow> bool" where
  "cont b = (128 \<le> b \<and> b \<le> 191)"

fun utf8_dec :: "nat list \<Rightarrow> pystr option" where
  "utf8_dec [] = Some []"
| "utf8_dec (b0 # bs) =
     (if b0 < 128 then map_option ((#) b0) (utf8_dec bs)
      else if 194 \<le> b0 \<and> b0 \<le> 223 then
        (case bs of
           b1 # r \<Rightarrow>
             if cont b1
             then map_option ((#) ((b0 - 192) * 64 + (b1 - 128))) (utf8_dec r)
             else None
         | _ \<Rightarrow> None)
      else if 224 \<le> b0 \<and> b0 \<le> 239 then
        (case bs of
           b1 # b2 # r \<Rightarrow>
             if cont b1 \<and> cont b2 \<and> (b0 = 224 \<longrightarrow> 160 \<le> b1) \<and> (b0 = 237 \<longrightarrow> b1 \<le> 159)
             then map_option ((#) ((b0 - 224) * 4096 + (b1 - 128) * 64 + (b2 - 128))) (utf8_dec r)
             else None
         | _ \<Rightarrow> None)
      else if 240 \<le> b0 \<and> b0 \<le> 244 then
        (case bs of
           b1 # b2 # b3 # r \<Rightarrow>
             if cont b1 \<and> cont b2 \<and> cont b3 \<and> (b0 = 240 \<longrightarrow> 144 \<le> b1) \<and> (b0 = 244 \<longrightarrow> b1 \<le> 143)
             then map_option
                    ((#) ((b0 - 240) * 262144 + (b1 - 128) * 4096 + (b2 - 128) * 64 + (b3 - 128)))
                    (utf8_dec r)
             else None
         | _ \<Rightarrow> None)
      else None)"

definition utf8_decode :: "bytes \<Rightarrow> pystr option" where
  "utf8_decode bs = utf8_dec (map of_char bs)"

text \<open>
  \<open>str.encode("utf-8")\<close>: one to four bytes per code point; a surrogate cannot be
  encoded (\<open>UnicodeEncodeError\<close>, here \<open>None\<close>).
\<close>

fun utf8_enc :: "pystr \<Rightarrow> nat list option" where
  "utf8_enc [] = Some []"
| "utf8_enc (c # cs) =
     (if c < 128 then map_option ((#) c) (utf8_enc cs)
      else if c < 2048 then
        map_option ((@) [192 + c div 64, 128 + c mod 64]) (utf8_enc cs)
      else if 55296 \<le> c \<and> c \<le> 57343 then None
      else if c < 65536 then
        map_option ((@) [224 + c div 4096, 128 + (c div 64) mod 64, 128 + c mod 64]) (utf8_enc cs)
      else if c < 1114112 then
        map_option
          ((@) [240 + c div 262144, 128 + (c div 4096) mod 64, 128 + (c div 64) mod 64,
                128 + c mod 64])
          (utf8_enc cs)
      else None)"

definition utf8_encode :: "pystr \<Rightarrow> bytes option" where
  "utf8_encode s = map_option (map char_of) (utf8_enc s)"

text \<open>\<open>str.isspace\<close> on one code point, and \<open>str.strip()\<close>.\<close>

definition isspace :: "nat \<Rightarrow> bool" where
  "isspace c =
     ((9 \<le> c \<and> c \<le> 13) \<or> (28 \<le> c \<and> c \<le> 32) \<or> c = 133 \<or> c = 160 \<or> c = 5760
      \<or> (8192 \<le> c \<and> c \<le> 8202) \<or> c = 8232 \<or> c = 8233 \<or> c = 8239 \<or> c = 8287
      \<or> c = 12288)"

definition strip :: "pystr \<Rightarrow> pystr" where
  "strip s = rev (dropWhile isspace (rev (dropWhile isspace s)))"

text \<open>A string literal of the source as a \<open>str\<close>.\<close>

definition str :: "string \<Rightarrow> pystr" where
  "str s = map of_char s"

text \<open>
  \<open>StreamReader.readline\<close> on the bytes buffered so far.  The subprocess is created with
  \<open>limit = 512 * 1024\<close>: a line whose newline lies beyond the limit, or a buffer longer
  than the limit with no newline in it, makes \<open>readline\<close> raise \<open>ValueError\<close> after
  dropping the offending bytes.  With no newline buffered, \<open>readline\<close> suspends while the
  stream is open and returns what is left (possibly \<open>b""\<close>) once it is at end-of-stream.
\<close>

definition limit :: nat where
  "limit = 512 * 1024"

definition newline :: char where
  "newline = CHR 0x0A"

datatype readline_result =
    Line bytes bytes
  | Overrun bytes
  | Wait

definition readline :: "bytes \<Rightarrow> bool \<Rightarrow> readline_result" where
  "readline buf eof =
     (if newline \<in> set buf then
        (let line = takeWhile (\<lambda>c. c \<noteq> newline) buf;
             rest = tl (dropWhile (\<lambda>c. c \<noteq> newline) buf)
         in if length line > limit then Overrun rest else Line (line @ [newline]) rest)
      else if length buf > limit then Overrun []
      else if eof then Line buf []
      else Wait)"

section \<open>The session\<close>

text \<open>
  The state of a \<open>NumWorks\<close> object together with the world it talks to: the event
  \<open>ready\<close>, the queue, the three pipes of the child process (\<open>writer\<close> holds every byte
  delivered to the child's standard input; \<open>reader\<close> and \<open>stderr\<close> hold the bytes the
  child has produced and no task has consumed yet), the three background tasks of the
  latest \<open>start\<close>, the module's logger and the state of the child process itself.

  A \<open>start\<close> on an object that was started before cancels nothing, so the tasks of
  the earlier \<open>start\<close> live on beside the new ones and share the event and the queue with
  them.  \<open>earlier_sinks\<close> and \<open>earlier_readers\<close> are the error sinks and readers of
  earlier starts that are still suspended in \<open>readline\<close> on a pipe of their own child,
  each with what that pipe holds and whether it is at end-of-stream;
  \<open>earlier_watchers\<close> counts the watchers of earlier starts still waiting for the queue.
  A loop reads \<open>self.reader\<close> or \<open>self.stderr\<close> afresh in every round, so an earlier task
  that is woken on its old pipe goes on to the current one: \<open>reader_orphan\<close> and
  \<open>stderr_orphan\<close> say that such a task is the one suspended on the current pipe.
\<close>

datatype task = NotStarted | Running | Finished | Died py_error

datatype log_entry = LogInfo string | LogWarning pystr | LogError pystr

text \<open>
  The calls the object makes on the child's input pipe, on the process and on the event,
  and the values its remote calls take from the queue, in the order in which they happen.
\<close>

datatype effect =
  Spawn | Write bytes | Drain | WriteEof | Close | ProcWait | EventSet | EventClear | Got json

record 'c session =
  ready :: bool
  queue :: "json list"
  writer :: bytes
  writer_eof :: bool
  writer_closed :: bool
  reader :: bytes
  reader_eof :: bool
  stderr :: bytes
  stderr_eof :: bool
  stderr_task :: task
  read_task :: task
  ready_task :: task
  logs :: "log_entry list"
  logger_disabled :: bool
  proc :: 'c
  trace :: "effect list"
  stderr_orphan :: bool
  reader_orphan :: bool
  earlier_sinks :: "(bytes \<times> bool) list"
  earlier_readers :: "(bytes \<times> bool) list"
  earlier_watchers :: nat

text \<open>
  What lies outside the repository: \<open>json.dumps\<close> and \<open>json.loads\<close>, each of which
  returns or raises, and the child process, which starts in some state with some output
  on its two streams and answers each chunk written to its input with more output.
  \<open>json.loads\<close> raises \<open>JSONDecodeError\<close> on text that is not JSON, and can raise otherwise
  (\<open>RecursionError\<close> on deep nesting, a plain \<open>ValueError\<close> on an integer of too many
  digits); \<open>json.dumps\<close> can raise in the same ways.
\<close>

record 'c env =
  dumps :: "json \<Rightarrow> py_error + pystr"
  loads :: "pystr \<Rightarrow> py_error + json"
  spawn :: "'c \<times> bytes \<times> bytes"
  respond :: "'c \<Rightarrow> bytes \<Rightarrow> 'c \<times> bytes \<times> bytes"

text \<open>A call on the module's logger; \<open>logger.disabled\<close> silences every level.\<close>

definition emit :: "log_entry \<Rightarrow> 'c session \<Rightarrow> 'c session" where
  "emit e s = (if logger_disabled s then s else s\<lparr>logs := logs s @ [e]\<rparr>)"

subsection \<open>Background tasks\<close>

text \<open>
  An asyncio task runs until it suspends, ends or raises.  Each loop below is run from the
  point where the task is resumed to the point where it next stops; \<open>None\<close> means that it
  never stops.
\<close>

partial_function (option) read :: "'c env \<Rightarrow> 'c session \<Rightarrow> 'c session option" where
  "read E s =
     (case readline (reader s) (reader_eof s) of
        Wait \<Rightarrow> Some s
      | Overrun rest \<Rightarrow> Some (s\<lparr>reader := rest, read_task := Died ValueError\<rparr>)
      | Line data rest \<Rightarrow>
          (case utf8_decode data of
             None \<Rightarrow> Some (s\<lparr>reader := rest, read_task := Died UnicodeDecodeError\<rparr>)
           | Some text \<Rightarrow>
               (case loads E (strip text) of
                  Inr v \<Rightarrow> read E (s\<lparr>reader := rest, queue := queue s @ [v]\<rparr>)
                | Inl e \<Rightarrow>
                    if e = JSONDecodeError
                    then read E (emit (LogWarning (strip text)) (s\<lparr>reader := rest\<rparr>))
                    else Some (s\<lparr>reader := rest, read_task := Died e\<rparr>))))"

partial_function (option) redirect_stderr :: "'c session \<Rightarrow> 'c session option" where
  "redirect_stderr s =
     (case readline (stderr s) (stderr_eof s) of
        Wait \<Rightarrow> Some s
      | Overrun rest \<Rightarrow> Some (s\<lparr>stderr := rest, stderr_task := Died ValueError\<rparr>)
      | Line data rest \<Rightarrow>
          (case utf8_decode data of
             None \<Rightarrow> Some (s\<lparr>stderr := rest, stderr_task := Died UnicodeDecodeError\<rparr>)
           | Some text \<Rightarrow>
               if strip text = [] then redirect_stderr (s\<lparr>stderr := rest\<rparr>)
               else redirect_stderr (emit (LogError (strip text)) (s\<lparr>stderr := rest\<rparr>))))"

function wait_for_ready :: "'c session \<Rightarrow> 'c session" where
  "wait_for_ready s =
     (case queue s of
        [] \<Rightarrow> s
      | data # q \<Rightarrow>
          (case py_get data ''ready'' of
             Inl e \<Rightarrow> s\<lparr>queue := q, ready_task := Died e\<rparr>
           | Inr r \<Rightarrow>
               if truthy r
               then s\<lparr>queue := q, ready := True, ready_task := Finished,
                      trace := trace s @ [EventSet]\<rparr>
               else wait_for_ready (s\<lparr>queue := q\<rparr>)))"
  by pat_completeness auto
termination
  by (relation "measure (\<lambda>s. length (queue s))") auto

declare wait_for_ready.simps [simp del]

declare read.simps [code]

declare redirect_stderr.simps [code]

text \<open>
  The tasks of the latest \<open>start\<close>.  When the task itself has ended and a task of an
  earlier \<open>start\<close> is suspended on the current pipe, that one runs.  The loops record the
  end of the task that runs them in \<open>read_task\<close> and \<open>stderr_task\<close>; a task of an earlier
  \<open>start\<close> runs the same code, so it is run with the field borrowed and given back, and
  \<open>stray_reader\<close> and \<open>stray_sink\<close> also tell whether it is still suspended afterwards.
\<close>

definition stray_sink :: "'c session \<Rightarrow> (bool \<times> 'c session) option" where
  "stray_sink s =
     (case redirect_stderr (s\<lparr>stderr_task := Running\<rparr>) of
        None \<Rightarrow> None
      | Some s' \<Rightarrow> Some (stderr_task s' = Running, s'\<lparr>stderr_task := stderr_task s\<rparr>))"

definition stray_reader :: "'c env \<Rightarrow> 'c session \<Rightarrow> (bool \<times> 'c session) option" where
  "stray_reader E s =
     (case read E (s\<lparr>read_task := Running\<rparr>) of
        None \<Rightarrow> None
      | Some s' \<Rightarrow> Some (read_task s' = Running, s'\<lparr>read_task := read_task s\<rparr>))"

definition run_stderr :: "'c session \<Rightarrow> 'c session option" where
  "run_stderr s =
     (if stderr_task s = Running then redirect_stderr s
      else if stderr_orphan s then
        (case stray_sink s of
           None \<Rightarrow> None
         | Some (waits, s') \<Rightarrow> Some (s'\<lparr>stderr_orphan := waits\<rparr>))
      else Some s)"

definition run_read :: "'c env \<Rightarrow> 'c session \<Rightarrow> 'c session option" where
  "run_read E s =
     (if read_task s = Running then read E s
      else if reader_orphan s then
        (case stray_reader E s of
           None \<Rightarrow> None
         | Some (waits, s') \<Rightarrow> Some (s'\<lparr>reader_orphan := waits\<rparr>))
      else Some s)"

definition run_ready :: "'c session \<Rightarrow> 'c session" where
  "run_ready s = (if ready_task s = Running then wait_for_ready s else s)"

text \<open>
  A task of an earlier \<open>start\<close> whose own pipe has a line for it, or is at end-of-stream,
  is woken there.  It handles that one piece of data as its loop does and, unless that
  ends it, goes round the loop to the current pipe.  There it goes on reading; when it
  comes to the point where it has to wait and another task is already waiting on that
  pipe, \<open>readline\<close> raises \<open>RuntimeError\<close> and the task ends; when nobody is, it stays
  there as the orphan.  Tasks that end leave the list.
\<close>

definition sink_data :: "bytes \<Rightarrow> 'c session \<Rightarrow> py_error + 'c session" where
  "sink_data data s =
     (case utf8_decode data of
        None \<Rightarrow> Inl UnicodeDecodeError
      | Some text \<Rightarrow> Inr (if strip text = [] then s else emit (LogError (strip text)) s))"

definition read_data :: "'c env \<Rightarrow> bytes \<Rightarrow> 'c session \<Rightarrow> py_error + 'c session" where
  "read_data E data s =
     (case utf8_decode data of
        None \<Rightarrow> Inl UnicodeDecodeError
      | Some text \<Rightarrow>
          (case loads E (strip text) of
             Inr v \<Rightarrow> Inr (s\<lparr>queue := queue s @ [v]\<rparr>)
           | Inl e \<Rightarrow>
               if e = JSONDecodeError then Inr (emit (LogWarning (strip text)) s) else Inl e))"

definition join_sink :: "'c session \<Rightarrow> 'c session option" where
  "join_sink s =
     (case stray_sink s of
        None \<Rightarrow> None
      | Some (waits, s') \<Rightarrow>
          Some (if waits \<and> stderr_task s \<noteq> Running \<and> \<not> stderr_orphan s
                then s'\<lparr>stderr_orphan := True\<rparr> else s'))"

definition join_reader :: "'c env \<Rightarrow> 'c session \<Rightarrow> 'c session option" where
  "join_reader E s =
     (case stray_reader E s of
        None \<Rightarrow> None
      | Some (waits, s') \<Rightarrow>
          Some (if waits \<and> read_task s \<noteq> Running \<and> \<not> reader_orphan s
                then s'\<lparr>reader_orphan := True\<rparr> else s'))"

definition wake_sink ::
  "bytes \<times> bool \<Rightarrow> 'c session \<Rightarrow> ((bytes \<times> bool) list \<times> 'c session) option" where
  "wake_sink p s =
     (case readline (fst p) (snd p) of
        Wait \<Rightarrow> Some ([p], s)
      | Overrun rest \<Rightarrow> Some ([], s)
      | Line data rest \<Rightarrow>
          (case sink_data data s of
             Inl e \<Rightarrow> Some ([], s)
           | Inr s1 \<Rightarrow> map_option (Pair []) (join_sink s1)))"

definition wake_reader ::
  "'c env \<Rightarrow> bytes \<times> bool \<Rightarrow> 'c session \<Rightarrow> ((bytes \<times> bool) list \<times> 'c session) option" where
  "wake_reader E p s =
     (case readline (fst p) (snd p) of
        Wait \<Rightarrow> Some ([p], s)
      | Overrun rest \<Rightarrow> Some ([], s)
      | Line data rest \<Rightarrow>
          (case read_data E data s of
             Inl e \<Rightarrow> Some ([], s)
           | Inr s1 \<Rightarrow> map_option (Pair []) (join_reader E s1)))"

fun wake_sinks ::
  "(bytes \<times> bool) list \<Rightarrow> 'c session \<Rightarrow> ((bytes \<times> bool) list \<times> 'c session) option" where
  "wake_sinks [] s = Some ([], s)"
| "wake_sinks (p # ps) s =
     (case wake_sink p s of
        None \<Rightarrow> None
      | Some (k, s1) \<Rightarrow>
          (case wake_sinks ps s1 of None \<Rightarrow> None | Some (ks, s2) \<Rightarrow> Some (k @ ks, s2)))"

fun wake_readers ::
  "'c env \<Rightarrow> (bytes \<times> bool) list \<Rightarrow> 'c session
     \<Rightarrow> ((bytes \<times> bool) list \<times> 'c session) option" where
  "wake_readers E [] s = Some ([], s)"
| "wake_readers E (p # ps) s =
     (case wake_reader E p s of
        None \<Rightarrow> None
      | Some (k, s1) \<Rightarrow>
          (case wake_readers E ps s1 of None \<Rightarrow> None | Some (ks, s2) \<Rightarrow> Some (k @ ks, s2)))"

definition run_earlier_sinks :: "'c session \<Rightarrow> 'c session option" where
  "run_earlier_sinks s =
     (case wake_sinks (earlier_sinks s) s of
        None \<Rightarrow> None
      | Some (ps, s') \<Rightarrow> Some (s'\<lparr>earlier_sinks := ps\<rparr>))"

definition run_earlier_readers :: "'c env \<Rightarrow> 'c session \<Rightarrow> 'c session option" where
  "run_earlier_readers E s =
     (case wake_readers E (earlier_readers s) s of
        None \<Rightarrow> None
      | Some (ps, s') \<Rightarrow> Some (s'\<lparr>earlier_readers := ps\<rparr>))"

text \<open>
  The watchers of earlier starts wait for the queue in front of the watcher of the latest
  one, so they are served first, one after the other; those that meet a ready marker or
  raise are gone, the others wait again.
\<close>

primrec earlier_watch :: "nat \<Rightarrow> 'c session \<Rightarrow> 'c session" where
  "earlier_watch 0 s = s\<lparr>earlier_watchers := 0\<rparr>"
| "earlier_watch (Suc n) s =
     (let s1 = wait_for_ready (s\<lparr>ready_task := Running\<rparr>);
          s2 = earlier_watch n (s1\<lparr>ready_task := ready_task s\<rparr>)
      in if ready_task s1 = Running then s2\<lparr>earlier_watchers := Suc (earlier_watchers s2)\<rparr>
         else s2)"

definition run_earlier_watchers :: "'c session \<Rightarrow> 'c session" where
  "run_earlier_watchers s = earlier_watch (earlier_watchers s) s"

text \<open>
  Whenever the foreground coroutine suspends, the background tasks that have something to
  do run until each of them is suspended again or has ended: first the tasks that read a
  pipe (those on the current pipes, then those of earlier starts), then the tasks that
  wait for the queue which the readers have filled.
\<close>

definition run_streams :: "'c env \<Rightarrow> 'c session \<Rightarrow> 'c session option" where
  "run_streams E s =
     (case run_stderr s of
        None \<Rightarrow> None
      | Some s1 \<Rightarrow>
          (case run_read E s1 of
             None \<Rightarrow> None
           | Some s2 \<Rightarrow>
               (case run_earlier_sinks s2 of
                  None \<Rightarrow> None
                | Some s3 \<Rightarrow> run_earlier_readers E s3)))"

definition run_watchers :: "'c session \<Rightarrow> 'c session" where
  "run_watchers s = run_ready (run_earlier_watchers s)"

definition pump :: "'c env \<Rightarrow> 'c session \<Rightarrow> 'c session option" where
  "pump E s = map_option run_watchers (run_streams E s)"

text \<open>
  The child's output reaching the pipe while the foreground is suspended: the bytes are
  buffered and the tasks waiting for them run.
\<close>

definition feed :: "'c env \<Rightarrow> bytes \<Rightarrow> 'c session \<Rightarrow> 'c session option" where
  "feed E bs s = pump E (s\<lparr>reader := reader s @ bs\<rparr>)"

subsection \<open>Foreground coroutines\<close>

text \<open>
  A coroutine of the object returns a value, raises, or stays suspended for ever
  (\<open>Blocked\<close>: nothing in the world will wake it); the outer \<open>None\<close> is a background loop
  that never yields back.
\<close>

datatype 'a outcome = Returned 'a | Raised py_error | Blocked

type_synonym ('a, 'c) run = "('a outcome \<times> 'c session) option"

definition bnd :: "('a, 'c) run \<Rightarrow> ('a \<Rightarrow> 'c session \<Rightarrow> ('b, 'c) run) \<Rightarrow> ('b, 'c) run" where
  "bnd m f =
     (case m of
        None \<Rightarrow> None
      | Some (Returned a, s) \<Rightarrow> f a s
      | Some (Raised e, s) \<Rightarrow> Some (Raised e, s)
      | Some (Blocked, s) \<Rightarrow> Some (Blocked, s))"

definition ensure_ready :: "'c env \<Rightarrow> 'c session \<Rightarrow> (unit, 'c) run" where
  "ensure_ready E s =
     (if ready s then Some (Returned (), s)
      else (case pump E s of
              None \<Rightarrow> None
            | Some s' \<Rightarrow> if ready s' then Some (Returned (), s') else Some (Blocked, s')))"

definition write' :: "'c env \<Rightarrow> json \<Rightarrow> 'c session \<Rightarrow> (unit, 'c) run" where
  "write' E data s =
     (case dumps E data of
        Inl e \<Rightarrow> Some (Raised e, s)
      | Inr text \<Rightarrow>
          (case utf8_encode text of
             None \<Rightarrow> Some (Raised UnicodeEncodeError, s)
           | Some b \<Rightarrow>
               (case respond E (proc s) (b @ [newline]) of
                  (c, out, err) \<Rightarrow>
                    Some (Returned (),
                          s\<lparr>writer := writer s @ b @ [newline],
                            trace := trace s @ [Write b, Write [newline], Drain],
                            proc := c, reader := reader s @ out, stderr := stderr s @ err\<rparr>))))"

text \<open>The bytes \<open>_write\<close> sends ahead of the newline, when the value can be serialized.\<close>

definition encoded :: "'c env \<Rightarrow> json \<Rightarrow> bytes option" where
  "encoded E d = (case dumps E d of Inl e \<Rightarrow> None | Inr t \<Rightarrow> utf8_encode t)"

text \<open>
  \<open>await self._queue.get()\<close>: an item already queued is taken at once; otherwise the
  caller suspends, the background tasks run, and the caller takes the head of what they
  queued, if anything.
\<close>

definition queue_get :: "'c env \<Rightarrow> 'c session \<Rightarrow> (json, 'c) run" where
  "queue_get E s =
     (case (if queue s = [] then pump E s else Some s) of
        None \<Rightarrow> None
      | Some s' \<Rightarrow>
          (case queue s' of
             [] \<Rightarrow> Some (Blocked, s')
           | x # q \<Rightarrow> Some (Returned x, s'\<lparr>queue := q, trace := trace s' @ [Got x]\<rparr>)))"

definition get_result :: "'c env \<Rightarrow> 'c session \<Rightarrow> (json, 'c) run" where
  "get_result E s =
     bnd (queue_get E s) (\<lambda>result s.
       if is_dict result then
         (case py_get result ''error'' of
            Inl e \<Rightarrow> Some (Raised e, s)
          | Inr err \<Rightarrow>
              if truthy err then
                (case py_index result ''error'' of
                   Inl e \<Rightarrow> Some (Raised e, s)
                 | Inr msg \<Rightarrow> Some (Raised (JavaScriptError msg), s))
              else Some (Returned result, s))
       else Some (Returned result, s))"

subsection \<open>The remote calls\<close>

definition connect :: "'c env \<Rightarrow> 'c session \<Rightarrow> (json, 'c) run" where
  "connect E s =
     bnd (ensure_ready E (emit (LogInfo ''Connecting to the NumWorks'') s)) (\<lambda>_ s.
     bnd (write' E (JObj [(''method'', JStr ''connect'')]) s) (\<lambda>_ s.
     get_result E s))"

definition disconnect :: "'c env \<Rightarrow> 'c session \<Rightarrow> (json, 'c) run" where
  "disconnect E s =
     bnd (ensure_ready E (emit (LogInfo ''Disconnecting from the NumWorks'') s)) (\<lambda>_ s.
     bnd (write' E (JObj [(''method'', JStr ''disconnect'')]) s) (\<lambda>_ s.
     get_result E s))"

definition status :: "'c env \<Rightarrow> 'c session \<Rightarrow> (json, 'c) run" where
  "status E s =
     bnd (ensure_ready E (emit (LogInfo ''Getting the status of the NumWorks'') s)) (\<lambda>_ s.
     bnd (write' E (JObj [(''method'', JStr ''status'')]) s) (\<lambda>_ s.
     get_result E s))"

text \<open>
  \<open>ensure_connected\<close> switches the logger off around the \<open>status\<close> call; when that call
  does not return, the line that switches it on again is not reached.
\<close>

definition ensure_connected :: "'c env \<Rightarrow> 'c session \<Rightarrow> (unit, 'c) run" where
  "ensure_connected E s =
     bnd (ensure_ready E s) (\<lambda>_ s.
     bnd (status E (s\<lparr>logger_disabled := True\<rparr>)) (\<lambda>st s.
     (case py_index st ''status'' of
        Inl e \<Rightarrow> Some (Raised e, s\<lparr>logger_disabled := False\<rparr>)
      | Inr v \<Rightarrow>
          if \<not> truthy v
          then bnd (connect E (s\<lparr>logger_disabled := False\<rparr>)) (\<lambda>_ s. Some (Returned (), s))
          else Some (Returned (), s\<lparr>logger_disabled := False\<rparr>))))"

definition get_model :: "'c env \<Rightarrow> 'c session \<Rightarrow> (json, 'c) run" where
  "get_model E s =
     bnd (ensure_connected E (emit (LogInfo ''Getting the model of the NumWorks'') s)) (\<lambda>_ s.
     bnd (write' E (JObj [(''method'', JStr ''getModel'')]) s) (\<lambda>_ s.
     get_result E s))"

definition get_platform_info :: "'c env \<Rightarrow> 'c session \<Rightarrow> (json, 'c) run" where
  "get_platform_info E s =
     bnd (ensure_connected E s) (\<lambda>_ s.
     bnd (write' E (JObj [(''method'', JStr ''getPlatformInfo'')])
            (emit (LogInfo ''Getting the platformInfo of the NumWorks'') s)) (\<lambda>_ s.
     get_result E s))"

definition backup_storage :: "'c env \<Rightarrow> 'c session \<Rightarrow> (json, 'c) run" where
  "backup_storage E s =
     bnd (ensure_connected E (emit (LogInfo ''Backing up the storage of the NumWorks'') s)) (\<lambda>_ s.
     bnd (write' E (JObj [(''method'', JStr ''backupStorage'')]) s) (\<lambda>_ s.
     get_result E s))"

definition install_storage :: "'c env \<Rightarrow> json \<Rightarrow> 'c session \<Rightarrow> (json, 'c) run" where
  "install_storage E storage s =
     bnd (ensure_connected E (emit (LogInfo ''Installing the storage on the NumWorks'') s)) (\<lambda>_ s.
     bnd (write' E (JObj [(''method'', JStr ''installStorage''), (''args'', JArr [storage])]) s)
       (\<lambda>_ s.
     get_result E s))"

subsection \<open>Starting and stopping\<close>

text \<open>
  \<open>start\<close> logs, awaits the creation of the child (the background tasks run meanwhile),
  takes the three pipes of the new child and schedules three new tasks, which first run
  when the caller next suspends.  It touches neither the event nor the queue, and it
  cancels nothing: a task of the object that is suspended on one of the pipes replaced,
  or on the queue, stays so.
\<close>

definition start :: "'c env \<Rightarrow> 'c session \<Rightarrow> (unit, 'c) run" where
  "start E s =
     (case pump E (emit (LogInfo ''Starting NumWorks object'') s) of
        None \<Rightarrow> None
      | Some s0 \<Rightarrow>
          (case spawn E of
             (c, out, err) \<Rightarrow>
               Some (Returned (),
                     s0\<lparr>proc := c,
                        writer := [], writer_eof := False, writer_closed := False,
                        earlier_sinks :=
                          earlier_sinks s0 @
                          (if stderr_task s0 = Running \<or> stderr_orphan s0
                           then [(stderr s0, stderr_eof s0)] else []),
                        earlier_readers :=
                          earlier_readers s0 @
                          (if read_task s0 = Running \<or> reader_orphan s0
                           then [(reader s0, reader_eof s0)] else []),
                        earlier_watchers :=
                          earlier_watchers s0 + (if ready_task s0 = Running then 1 else 0),
                        stderr_orphan := False, reader_orphan := False,
                        reader := out, reader_eof := False,
                        stderr := err, stderr_eof := False,
                        stderr_task := Running, read_task := Running, ready_task := Running,
                        trace := trace s0 @ [Spawn]\<rparr>)))"

definition stop :: "'c env \<Rightarrow> 'c session \<Rightarrow> (unit, 'c) run" where
  "stop E s =
     bnd (disconnect E (emit (LogInfo ''Stopping NumWorks object'') s)) (\<lambda>_ s.
     Some (Returned (),
           s\<lparr>writer_eof := True, writer_closed := True, ready := False,
             trace := trace s @ [WriteEof, Close, EventClear]\<rparr>))"

text \<open>The object as \<open>__init__\<close> leaves it, before any child exists.\<close>

definition init :: "'c \<Rightarrow> 'c session" where
  "init c =
     \<lparr>ready = False, queue = [], writer = [], writer_eof = False, writer_closed = False,
      reader = [], reader_eof = False, stderr = [], stderr_eof = False,
      stderr_task = NotStarted, read_task = NotStarted, ready_task = NotStarted,
      logs = [LogInfo ''Initializing NumWorks object''], logger_disabled = False,
      proc = c, trace = [],
      stderr_orphan = False, reader_orphan = False,
      earlier_sinks = [], earlier_readers = [], earlier_watchers = 0\<rparr>"

subsection \<open>The seven calls as one family\<close>

text \<open>
  Every remote call has the same shape: a prelude (its log line and \<open>ensure_ready\<close> or
  \<open>ensure_connected\<close>), one \<open>_write\<close> of its command and one \<open>_get_result\<close>.
\<close>

datatype rpc =
  Connect | Disconnect | Status | GetModel | GetPlatformInfo | BackupStorage
  | InstallStorage json

fun call :: "'c env \<Rightarrow> rpc \<Rightarrow> 'c session \<Rightarrow> (json, 'c) run" where
  "call E Connect = connect E"
| "call E Disconnect = disconnect E"
| "call E Status = status E"
| "call E GetModel = get_model E"
| "call E GetPlatformInfo = get_platform_info E"
| "call E BackupStorage = backup_storage E"
| "call E (InstallStorage storage) = install_storage E storage"

fun command :: "rpc \<Rightarrow> json" where
  "command Connect = JObj [(''method'', JStr ''connect'')]"
| "command Disconnect = JObj [(''method'', JStr ''disconnect'')]"
| "command Status = JObj [(''method'', JStr ''status'')]"
| "command GetModel = JObj [(''method'', JStr ''getModel'')]"
| "command GetPlatformInfo = JObj [(''method'', JStr ''getPlatformInfo'')]"
| "command BackupStorage = JObj [(''method'', JStr ''backupStorage'')]"
| "command (InstallStorage storage) =
     JObj [(''method'', JStr ''installStorage''), (''args'', JArr [storage])]"

fun prelude :: "'c env \<Rightarrow> rpc \<Rightarrow> 'c session \<Rightarrow> (unit, 'c) run" where
  "prelude E Connect s = ensure_ready E (emit (LogInfo ''Connecting to the NumWorks'') s)"
| "prelude E Disconnect s = ensure_ready E (emit (LogInfo ''Disconnecting from the NumWorks'') s)"
| "prelude E Status s = ensure_ready E (emit (LogInfo ''Getting the status of the NumWorks'') s)"
| "prelude E GetModel s =
     ensure_connected E (emit (LogInfo ''Getting the model of the NumWorks'') s)"
| "prelude E GetPlatformInfo s =
     bnd (ensure_connected E s) (\<lambda>_ s.
       Some (Returned (), emit (LogInfo ''Getting the platformInfo of the NumWorks'') s))"
| "prelude E BackupStorage s =
     ensure_connected E (emit (LogInfo ''Backing up the storage of the NumWorks'') s)"
| "prelude E (InstallStorage storage) s =
     ensure_connected E (emit (LogInfo ''Installing the storage on the NumWorks'') s)"

subsection \<open>What a step may do to the gate\<close>

text \<open>
  The relation between the state before and the state after an operation that leaves the
  gate alone: a set event stays set, a watcher that is not running stays as it is, no
  watcher of an earlier start appears, an event whose own watcher is not running becomes
  set only as a watcher of an earlier start goes, and no wait for the child's exit is
  recorded.
\<close>

definition gate_step :: "'c session \<Rightarrow> 'c session \<Rightarrow> bool" where
  "gate_step s s' =
     ((ready s \<longrightarrow> ready s')
      \<and> (ready_task s \<noteq> Running \<longrightarrow> ready_task s' = ready_task s)
      \<and> earlier_watchers s' \<le> earlier_watchers s
      \<and> (ready_task s \<noteq> Running \<longrightarrow> \<not> ready s \<longrightarrow> ready s' \<longrightarrow>
            earlier_watchers s' < earlier_watchers s)
      \<and> (ProcWait \<in> set (trace s') \<longrightarrow> ProcWait \<in> set (trace s)))"

text \<open>
  What the background tasks can write.  A view of the session is blind to the sinks when
  it does not depend on anything a task in \<open>_redirect_stderr\<close> writes, blind to the
  readers likewise for \<open>_read\<close>, and blind to the watchers likewise for
  \<open>_wait_for_ready\<close>.
\<close>

definition sink_blind :: "('c session \<Rightarrow> 'a) \<Rightarrow> bool" where
  "sink_blind f =
     (\<forall>s. (\<forall>r. f (s\<lparr>stderr := r\<rparr>) = f s) \<and> (\<forall>l. f (s\<lparr>logs := l\<rparr>) = f s)
        \<and> (\<forall>t. f (s\<lparr>stderr_task := t\<rparr>) = f s) \<and> (\<forall>b. f (s\<lparr>stderr_orphan := b\<rparr>) = f s)
        \<and> (\<forall>ps. f (s\<lparr>earlier_sinks := ps\<rparr>) = f s))"

definition reader_blind :: "('c session \<Rightarrow> 'a) \<Rightarrow> bool" where
  "reader_blind f =
     (\<forall>s. (\<forall>r. f (s\<lparr>reader := r\<rparr>) = f s) \<and> (\<forall>q. f (s\<lparr>queue := q\<rparr>) = f s)
        \<and> (\<forall>l. f (s\<lparr>logs := l\<rparr>) = f s) \<and> (\<forall>t. f (s\<lparr>read_task := t\<rparr>) = f s)
        \<and> (\<forall>b. f (s\<lparr>reader_orphan := b\<rparr>) = f s)
        \<and> (\<forall>ps. f (s\<lparr>earlier_readers := ps\<rparr>) = f s))"

definition watcher_blind :: "('c session \<Rightarrow> 'a) \<Rightarrow> bool" where
  "watcher_blind f =
     (\<forall>s. (\<forall>q. f (s\<lparr>queue := q\<rparr>) = f s) \<and> (\<forall>b. f (s\<lparr>ready := b\<rparr>) = f s)
        \<and> (\<forall>t. f (s\<lparr>ready_task := t\<rparr>) = f s) \<and> (\<forall>tr. f (s\<lparr>trace := tr\<rparr>) = f s)
        \<and> (\<forall>n. f (s\<lparr>earlier_watchers := n\<rparr>) = f s))"

subsection \<open>Histories\<close>

text \<open>A ready marker: a dict with a truthy \<open>ready\<close> entry.\<close>

fun is_ready_marker :: "json \<Rightarrow> bool" where
  "is_ready_marker (JObj kvs) = (case map_of kvs ''ready'' of None \<Rightarrow> False | Some r \<Rightarrow> truthy r)"
| "is_ready_marker v = False"

text \<open>
  What watchers do between two states: they take values from the front of the queue; a set
  event stays set; while the event stays unset no ready marker is among the values
  taken, and when it becomes set a ready marker is, the first of them being the one that
  set it.
\<close>

definition watched :: "'c session \<Rightarrow> 'c session \<Rightarrow> bool" where
  "watched s s' =
     (\<exists>taken. queue s = taken @ queue s'
        \<and> (ready s \<longrightarrow> ready s')
        \<and> (\<not> ready s' \<longrightarrow> (\<forall>x\<in>set taken. \<not> is_ready_marker x))
        \<and> (\<not> ready s \<longrightarrow> ready s' \<longrightarrow>
              (\<exists>pre v more. taken = pre @ v # more \<and> is_ready_marker v
                 \<and> (\<forall>x\<in>set pre. \<not> is_ready_marker x))))"

text \<open>
  What can happen to a session: the caller awaits one of the object's coroutines, or,
  while the caller is suspended, output of a child arrives on one of its streams or a
  child closes one of them.  The streams are those of the current child and those of
  earlier children on which a task is still suspended, the latter given by their place in
  \<open>earlier_readers\<close> and \<open>earlier_sinks\<close>.  The outcome of the coroutine is dropped; the
  state it leaves is kept.
\<close>

datatype action =
  Call rpc | EnsureReady | EnsureConnected | Start | Stop | Feed bytes | FeedErr bytes
  | Eof | EofErr | FeedEarlier nat bytes | FeedEarlierErr nat bytes
  | EofEarlier nat | EofEarlierErr nat

definition arrive :: "nat \<Rightarrow> bytes \<Rightarrow> (bytes \<times> bool) list \<Rightarrow> (bytes \<times> bool) list" where
  "arrive i bs ps = (if i < length ps then ps[i := (fst (ps ! i) @ bs, snd (ps ! i))] else ps)"

definition close_pipe :: "nat \<Rightarrow> (bytes \<times> bool) list \<Rightarrow> (bytes \<times> bool) list" where
  "close_pipe i ps = (if i < length ps then ps[i := (fst (ps ! i), True)] else ps)"

fun perform :: "'c env \<Rightarrow> action \<Rightarrow> 'c session \<Rightarrow> 'c session option" where
  "perform E (Call r) s = map_option snd (call E r s)"
| "perform E EnsureReady s = map_option snd (ensure_ready E s)"
| "perform E EnsureConnected s = map_option snd (ensure_connected E s)"
| "perform E Start s = map_option snd (start E s)"
| "perform E Stop s = map_option snd (stop E s)"
| "perform E (Feed bs) s = feed E bs s"
| "perform E (FeedErr bs) s = pump E (s\<lparr>stderr := stderr s @ bs\<rparr>)"
| "perform E Eof s = pump E (s\<lparr>reader_eof := True\<rparr>)"
| "perform E EofErr s = pump E (s\<lparr>stderr_eof := True\<rparr>)"
| "perform E (FeedEarlier i bs) s =
     pump E (s\<lparr>earlier_readers := arrive i bs (earlier_readers s)\<rparr>)"
| "perform E (FeedEarlierErr i bs) s =
     pump E (s\<lparr>earlier_sinks := arrive i bs (earlier_sinks s)\<rparr>)"
| "perform E (EofEarlier i) s =
     pump E (s\<lparr>earlier_readers := close_pipe i (earlier_readers s)\<rparr>)"
| "perform E (EofEarlierErr i) s =
     pump E (s\<lparr>earlier_sinks := close_pipe i (earlier_sinks s)\<rparr>)"

fun run_actions :: "'c env \<Rightarrow> action list \<Rightarrow> 'c session \<Rightarrow> 'c session option" where
  "run_actions E [] s = Some s"
| "run_actions E (a # as) s =
     (case perform E a s of None \<Rightarrow> None | Some s' \<Rightarrow> run_actions E as s')"

subsection \<open>Lines on the wire\<close>

text \<open>
  The vocabulary for statements about the reader.  A line, given without its newline, is
  well framed when it holds no newline, fits the stream limit and is valid UTF-8;
  \<open>text_of\<close> is the text the reader hands to \<open>json.loads\<close> for it; \<open>wire\<close> is a list of
  lines as bytes on the pipe; \<open>entries\<close> are the values of the lines that \<open>json.loads\<close>
  accepts and \<open>warnings\<close> the log entries for those it rejects with \<open>JSONDecodeError\<close>,
  both in the order of the lines.  A line is \<open>readable\<close> when it is well framed and
  \<open>json.loads\<close> either accepts it or rejects it with \<open>JSONDecodeError\<close>.
\<close>

definition wellframed :: "bytes \<Rightarrow> bool" where
  "wellframed l = (newline \<notin> set l \<and> length l \<le> limit \<and> utf8_decode (l @ [newline]) \<noteq> None)"

definition text_of :: "bytes \<Rightarrow> pystr" where
  "text_of l = strip (the (utf8_decode (l @ [newline])))"

definition wire :: "bytes list \<Rightarrow> bytes" where
  "wire ls = concat (map (\<lambda>l. l @ [newline]) ls)"

definition entries :: "'c env \<Rightarrow> bytes list \<Rightarrow> json list" where
  "entries E ls =
     List.map_filter (\<lambda>l. case loads E (text_of l) of Inr v \<Rightarrow> Some v | Inl e \<Rightarrow> None) ls"

definition warnings :: "'c env \<Rightarrow> bytes list \<Rightarrow> log_entry list" where
  "warnings E ls =
     map (\<lambda>l. LogWarning (text_of l))
       (filter (\<lambda>l. loads E (text_of l) = Inl JSONDecodeError) ls)"

definition readable :: "'c env \<Rightarrow> bytes \<Rightarrow> bool" where
  "readable E l =
     (wellframed l \<and> (\<forall>e. loads E (text_of l) = Inl e \<longrightarrow> e = JSONDecodeError))"


subsection \<open>Sequences of calls\<close>


text \<open>
  A session between two calls: the gate is set and no watcher is left, nothing is queued
  or buffered, the reader is alive, the three streams of the child are open, and the
  tasks of earlier starts have nothing to read.
\<close>

definition quiet :: "bytes \<times> bool \<Rightarrow> bool" where
  "quiet p = (readline (fst p) (snd p) = Wait)"

definition idle :: "'c session \<Rightarrow> bool" where
  "idle s =
     (ready s \<and> ready_task s \<noteq> Running \<and> earlier_watchers s = 0
      \<and> queue s = [] \<and> reader s = [] \<and> \<not> reader_eof s
      \<and> read_task s = Running \<and> \<not> stderr_eof s \<and> \<not> writer_closed s
      \<and> (\<forall>p\<in>set (earlier_sinks s). quiet p) \<and> (\<forall>p\<in>set (earlier_readers s). quiet p))"



text \<open>What \<open>_get_result\<close> makes of a dequeued value.\<close>

fun outcome_of :: "json \<Rightarrow> json outcome" where
  "outcome_of (JObj kvs) =
     (case map_of kvs ''error'' of
        None \<Rightarrow> Returned (JObj kvs)
      | Some e \<Rightarrow> if truthy e then Raised (JavaScriptError e) else Returned (JObj kvs))"
| "outcome_of v = Returned v"


text \<open>The values that remote calls took from the queue, in order.\<close>

fun gots :: "effect list \<Rightarrow> json list" where
  "gots [] = []"
| "gots (Got v # tr) = v # gots tr"
| "gots (_ # tr) = gots tr"




subsection \<open>The calls as exchanges with the child\<close>








section \<open>A sample world\<close>

text \<open>
  A child that plays a script, one reply per chunk written to it, with a decoder and an
  encoder that know the handful of messages used below; the decoder rejects any other
  text with \<open>JSONDecodeError\<close>.  It serves to run the model on concrete inputs.
\<close>

definition quoted :: "string \<Rightarrow> string" where
  "quoted s = [CHR 0x22] @ s @ [CHR 0x22]"

definition obj1 :: "string \<Rightarrow> string \<Rightarrow> string" where
  "obj1 k v = ''{'' @ quoted k @ '': '' @ v @ ''}''"

definition known_values :: "pystr \<Rightarrow> json option" where
  "known_values t =
     map_of
       [(str (obj1 ''ready'' ''true''), JObj [(''ready'', JBool True)]),
        (str (obj1 ''error'' (quoted ''X'')), JObj [(''error'', JStr ''X'')]),
        (str (obj1 ''status'' ''false''), JObj [(''status'', JBool False)]),
        (str (obj1 ''status'' ''true''), JObj [(''status'', JBool True)]),
        (str (obj1 ''status'' (quoted ''ok'')), JObj [(''status'', JStr ''ok'')]),
        (str (obj1 ''model'' ''42''), JObj [(''model'', JInt 42)]),
        (str (obj1 ''method'' (quoted ''status'')), JObj [(''method'', JStr ''status'')]),
        (str ''[1]'', JArr [JInt 1])] t"

definition sample_loads :: "pystr \<Rightarrow> py_error + json" where
  "sample_loads t =
     (case known_values t of
        Some v \<Rightarrow> Inr v
      | None \<Rightarrow> Inl JSONDecodeError)"

definition sample_text :: "json \<Rightarrow> pystr" where
  "sample_text v =
     (case v of
        JObj [(k, JStr m)] \<Rightarrow> str (obj1 k (quoted m))
      | _ \<Rightarrow> str ''null'')"

definition sample_dumps :: "json \<Rightarrow> py_error + pystr" where
  "sample_dumps v = Inr (sample_text v)"

definition scripted :: "bytes \<Rightarrow> bytes list \<Rightarrow> (bytes list) env" where
  "scripted boot script =
     \<lparr>dumps = sample_dumps, loads = sample_loads, spawn = (script, boot, []),
      respond = (\<lambda>c _. case c of [] \<Rightarrow> ([], [], []) | r # rs \<Rightarrow> (rs, r, []))\<rparr>"

definition line :: "string \<Rightarrow> bytes" where
  "line s = s @ [newline]"

definition started :: "bytes \<Rightarrow> bytes list \<Rightarrow> (bytes list) session" where
  "started boot script = (case start (scripted boot script) (init []) of Some (_, s) \<Rightarrow> s)"


text \<open>A session that has seen its ready marker, with a child that still has a script.\<close>

definition ready_session :: "bytes list \<Rightarrow> (bytes list) session" where
  "ready_session script =
     (case ensure_ready (scripted [] []) (started (line (obj1 ''ready'' ''true'')) script) of
        Some (_, s) \<Rightarrow> s)"

text \<open>Two readers with three lines buffered, the middle one malformed.\<close>

definition garbled :: "(bytes list) session" where
  "garbled = (init [])\<lparr>read_task := Running,
                reader := wire [obj1 ''status'' ''true'', ''not-json'', obj1 ''model'' ''42'']\<rparr>"

definition undecodable :: "(bytes list) session" where
  "undecodable = (init [])\<lparr>read_task := Running,
                reader := wire [obj1 ''status'' ''true'', [CHR 0xFF], obj1 ''model'' ''42'']\<rparr>"





section \<open>Basic facts\<close>

lemma bnd_Returned [simp]: "bnd (Some (Returned a, s)) f = f a s"
  by (simp add: bnd_def)

lemma bnd_assoc: "bnd (bnd m f) g = bnd m (\<lambda>a s. bnd (f a s) g)"
  by (auto simp: bnd_def split: option.splits outcome.splits prod.splits)

lemma call_skeleton:
  "call E r s =
     bnd (prelude E r s) (\<lambda>_ s. bnd (write' E (command r) s) (\<lambda>_ s. get_result E s))"
  by (cases r)
     (simp_all add: connect_def disconnect_def status_def get_model_def get_platform_info_def
        backup_storage_def install_storage_def bnd_assoc)

lemma get_result_cases:
  assumes "queue_get E s = Some (Returned v, s')"
  shows "get_result E s =
           (case v of
              JObj kvs \<Rightarrow>
                (case map_of kvs ''error'' of
                   None \<Rightarrow> Some (Returned v, s')
                 | Some e \<Rightarrow> if truthy e then Some (Raised (JavaScriptError e), s')
                             else Some (Returned v, s'))
            | _ \<Rightarrow> Some (Returned v, s'))"
  using assms by (cases v) (simp_all add: get_result_def split: option.splits)

section \<open>Frames\<close>

lemma gate_step_refl [simp]: "gate_step s s"
  by (simp add: gate_step_def)

lemma gate_step_trans: "gate_step s s1 \<Longrightarrow> gate_step s1 s2 \<Longrightarrow> gate_step s s2"
  by (auto simp: gate_step_def)

lemma emit_fields [simp]:
  "ready (emit e s) = ready s" "queue (emit e s) = queue s" "writer (emit e s) = writer s"
  "trace (emit e s) = trace s" "reader (emit e s) = reader s"
  "reader_eof (emit e s) = reader_eof s"
  "stderr (emit e s) = stderr s" "stderr_eof (emit e s) = stderr_eof s"
  "read_task (emit e s) = read_task s" "ready_task (emit e s) = ready_task s"
  "stderr_task (emit e s) = stderr_task s" "proc (emit e s) = proc s"
  "writer_eof (emit e s) = writer_eof s" "writer_closed (emit e s) = writer_closed s"
  "stderr_orphan (emit e s) = stderr_orphan s" "reader_orphan (emit e s) = reader_orphan s"
  "earlier_sinks (emit e s) = earlier_sinks s" "earlier_readers (emit e s) = earlier_readers s"
  "earlier_watchers (emit e s) = earlier_watchers s"
  "logger_disabled (emit e s) = logger_disabled s"
  by (simp_all add: emit_def)

lemma gate_step_emit [simp]: "gate_step s (emit e s)" "gate_step (emit e s) s"
  by (simp_all add: gate_step_def)

text \<open>The loops on the current pipes.\<close>

lemma read_inv:
  assumes "read E s = Some s'"
    and "\<And>s r. f (s\<lparr>reader := r\<rparr>) = f s"
    and "\<And>s q. f (s\<lparr>queue := q\<rparr>) = f s"
    and "\<And>s l. f (s\<lparr>logs := l\<rparr>) = f s"
    and "\<And>s t. f (s\<lparr>read_task := t\<rparr>) = f s"
  shows "f s' = f s"
  by (rule read.raw_induct [where P = "\<lambda>E s s'. f s' = f s", OF _ assms(1)])
     (auto simp: emit_def assms(2-)
        split: readline_result.splits option.splits sum.splits if_splits)

lemma redirect_stderr_inv:
  assumes "redirect_stderr s = Some s'"
    and "\<And>s r. f (s\<lparr>stderr := r\<rparr>) = f s"
    and "\<And>s l. f (s\<lparr>logs := l\<rparr>) = f s"
    and "\<And>s t. f (s\<lparr>stderr_task := t\<rparr>) = f s"
  shows "f s' = f s"
  by (rule redirect_stderr.raw_induct [where P = "\<lambda>s s'. f s' = f s", OF _ assms(1)])
     (auto simp: emit_def assms(2-) split: readline_result.splits option.splits if_splits)

lemma read_blind:
  assumes "read E s = Some s'" "reader_blind f"
  shows "f s' = f s"
  by (rule read_inv [OF assms(1)]) (use assms(2) in \<open>simp_all add: reader_blind_def\<close>)

lemma redirect_stderr_blind:
  assumes "redirect_stderr s = Some s'" "sink_blind f"
  shows "f s' = f s"
  by (rule redirect_stderr_inv [OF assms(1)]) (use assms(2) in \<open>simp_all add: sink_blind_def\<close>)

lemma read_frame:
  assumes "read E s = Some s'"
  shows "ready s' = ready s" "ready_task s' = ready_task s" "trace s' = trace s"
    "writer s' = writer s" "proc s' = proc s" "stderr s' = stderr s"
    "stderr_eof s' = stderr_eof s" "stderr_task s' = stderr_task s"
    "reader_eof s' = reader_eof s" "writer_eof s' = writer_eof s"
    "writer_closed s' = writer_closed s" "logger_disabled s' = logger_disabled s"
  by (rule read_inv [OF assms]; simp)+

lemma redirect_stderr_frame:
  assumes "redirect_stderr s = Some s'"
  shows "ready s' = ready s" "ready_task s' = ready_task s" "trace s' = trace s"
    "writer s' = writer s" "proc s' = proc s" "reader s' = reader s"
    "reader_eof s' = reader_eof s" "read_task s' = read_task s" "queue s' = queue s"
    "stderr_eof s' = stderr_eof s" "writer_eof s' = writer_eof s"
    "writer_closed s' = writer_closed s" "logger_disabled s' = logger_disabled s"
  by (rule redirect_stderr_inv [OF assms]; simp)+

lemma stray_sink_inv:
  assumes "stray_sink s = Some (w, s')"
    and "\<And>s r. f (s\<lparr>stderr := r\<rparr>) = f s"
    and "\<And>s l. f (s\<lparr>logs := l\<rparr>) = f s"
    and "\<And>s t. f (s\<lparr>stderr_task := t\<rparr>) = f s"
  shows "f s' = f s"
proof -
  from assms(1) obtain s0 where r: "redirect_stderr (s\<lparr>stderr_task := Running\<rparr>) = Some s0"
    and s': "s' = s0\<lparr>stderr_task := stderr_task s\<rparr>"
    by (auto simp: stray_sink_def split: option.splits)
  have "f s' = f s0"
    by (simp add: s' assms(4))
  also have "\<dots> = f (s\<lparr>stderr_task := Running\<rparr>)"
    using r by (rule redirect_stderr_inv) (rule assms(2-))+
  finally show ?thesis
    by (simp add: assms(4))
qed

lemma stray_reader_inv:
  assumes "stray_reader E s = Some (w, s')"
    and "\<And>s r. f (s\<lparr>reader := r\<rparr>) = f s"
    and "\<And>s q. f (s\<lparr>queue := q\<rparr>) = f s"
    and "\<And>s l. f (s\<lparr>logs := l\<rparr>) = f s"
    and "\<And>s t. f (s\<lparr>read_task := t\<rparr>) = f s"
  shows "f s' = f s"
proof -
  from assms(1) obtain s0 where r: "read E (s\<lparr>read_task := Running\<rparr>) = Some s0"
    and s': "s' = s0\<lparr>read_task := read_task s\<rparr>"
    by (auto simp: stray_reader_def split: option.splits)
  have "f s' = f s0"
    by (simp add: s' assms(5))
  also have "\<dots> = f (s\<lparr>read_task := Running\<rparr>)"
    using r by (rule read_inv) (rule assms(2-))+
  finally show ?thesis
    by (simp add: assms(5))
qed

lemma stray_sink_blind:
  assumes "stray_sink s = Some (w, s')" "sink_blind f"
  shows "f s' = f s"
  by (rule stray_sink_inv [OF assms(1)]) (use assms(2) in \<open>simp_all add: sink_blind_def\<close>)

lemma stray_reader_blind:
  assumes "stray_reader E s = Some (w, s')" "reader_blind f"
  shows "f s' = f s"
  by (rule stray_reader_inv [OF assms(1)]) (use assms(2) in \<open>simp_all add: reader_blind_def\<close>)

lemma run_stderr_inv:
  assumes "run_stderr s = Some s'"
    and "\<And>s r. f (s\<lparr>stderr := r\<rparr>) = f s"
    and "\<And>s l. f (s\<lparr>logs := l\<rparr>) = f s"
    and "\<And>s t. f (s\<lparr>stderr_task := t\<rparr>) = f s"
    and "\<And>s b. f (s\<lparr>stderr_orphan := b\<rparr>) = f s"
  shows "f s' = f s"
proof (cases "stderr_task s = Running")
  case True
  with assms(1) have "redirect_stderr s = Some s'"
    by (simp add: run_stderr_def)
  then show ?thesis
    by (rule redirect_stderr_inv) (rule assms(2-))+
next
  case False
  show ?thesis
  proof (cases "stderr_orphan s")
    case True
    with False assms(1) obtain w s0 where 0: "stray_sink s = Some (w, s0)"
      and s': "s' = s0\<lparr>stderr_orphan := w\<rparr>"
      by (auto simp: run_stderr_def split: option.splits)
    have "f s' = f s0"
      by (simp add: s' assms(5))
    also have "\<dots> = f s"
      using 0 by (rule stray_sink_inv) (rule assms(2-))+
    finally show ?thesis .
  next
    case False
    with \<open>stderr_task s \<noteq> Running\<close> assms(1) show ?thesis by (simp add: run_stderr_def)
  qed
qed

lemma run_read_inv:
  assumes "run_read E s = Some s'"
    and "\<And>s r. f (s\<lparr>reader := r\<rparr>) = f s"
    and "\<And>s q. f (s\<lparr>queue := q\<rparr>) = f s"
    and "\<And>s l. f (s\<lparr>logs := l\<rparr>) = f s"
    and "\<And>s t. f (s\<lparr>read_task := t\<rparr>) = f s"
    and "\<And>s b. f (s\<lparr>reader_orphan := b\<rparr>) = f s"
  shows "f s' = f s"
proof (cases "read_task s = Running")
  case True
  with assms(1) have "read E s = Some s'"
    by (simp add: run_read_def)
  then show ?thesis
    by (rule read_inv) (rule assms(2-))+
next
  case False
  show ?thesis
  proof (cases "reader_orphan s")
    case True
    with False assms(1) obtain w s0 where 0: "stray_reader E s = Some (w, s0)"
      and s': "s' = s0\<lparr>reader_orphan := w\<rparr>"
      by (auto simp: run_read_def split: option.splits)
    have "f s' = f s0"
      by (simp add: s' assms(6))
    also have "\<dots> = f s"
      using 0 by (rule stray_reader_inv) (rule assms(2-))+
    finally show ?thesis .
  next
    case False
    with \<open>read_task s \<noteq> Running\<close> assms(1) show ?thesis by (simp add: run_read_def)
  qed
qed

lemma run_stderr_blind:
  assumes "run_stderr s = Some s'" "sink_blind f"
  shows "f s' = f s"
  by (rule run_stderr_inv [OF assms(1)]) (use assms(2) in \<open>simp_all add: sink_blind_def\<close>)

lemma run_read_blind:
  assumes "run_read E s = Some s'" "reader_blind f"
  shows "f s' = f s"
  by (rule run_read_inv [OF assms(1)]) (use assms(2) in \<open>simp_all add: reader_blind_def\<close>)

text \<open>The tasks of earlier starts.\<close>

lemma join_sink_blind:
  assumes "join_sink s = Some s'" "sink_blind f"
  shows "f s' = f s"
proof -
  from assms(1) obtain w s0 where 0: "stray_sink s = Some (w, s0)"
    and s': "s' = s0 \<or> s' = s0\<lparr>stderr_orphan := True\<rparr>"
    by (auto simp: join_sink_def split: option.splits if_splits)
  have "f s' = f s0"
    using s' assms(2) by (auto simp: sink_blind_def)
  with stray_sink_blind [OF 0 assms(2)] show ?thesis by simp
qed

lemma join_reader_blind:
  assumes "join_reader E s = Some s'" "reader_blind f"
  shows "f s' = f s"
proof -
  from assms(1) obtain w s0 where 0: "stray_reader E s = Some (w, s0)"
    and s': "s' = s0 \<or> s' = s0\<lparr>reader_orphan := True\<rparr>"
    by (auto simp: join_reader_def split: option.splits if_splits)
  have "f s' = f s0"
    using s' assms(2) by (auto simp: reader_blind_def)
  with stray_reader_blind [OF 0 assms(2)] show ?thesis by simp
qed

lemma sink_data_blind:
  assumes "sink_data data s = Inr s'" "sink_blind f"
  shows "f s' = f s"
  using assms by (auto simp: sink_data_def emit_def sink_blind_def split: option.splits if_splits)

lemma read_data_blind:
  assumes "read_data E data s = Inr s'" "reader_blind f"
  shows "f s' = f s"
  using assms
  by (auto simp: read_data_def emit_def reader_blind_def
        split: option.splits sum.splits if_splits)

lemma wake_sink_blind:
  assumes "wake_sink p s = Some (k, s')" "sink_blind f"
  shows "f s' = f s"
proof (cases "readline (fst p) (snd p)")
  case (Line data rest)
  show ?thesis
  proof (cases "sink_data data s")
    case (Inl e)
    with Line assms(1) show ?thesis by (simp add: wake_sink_def)
  next
    case (Inr s1)
    with Line assms(1) have "join_sink s1 = Some s'"
      by (auto simp: wake_sink_def)
    from join_sink_blind [OF this assms(2)] sink_data_blind [OF Inr assms(2)]
    show ?thesis by simp
  qed
qed (use assms(1) in \<open>simp_all add: wake_sink_def\<close>)

lemma wake_reader_blind:
  assumes "wake_reader E p s = Some (k, s')" "reader_blind f"
  shows "f s' = f s"
proof (cases "readline (fst p) (snd p)")
  case (Line data rest)
  show ?thesis
  proof (cases "read_data E data s")
    case (Inl e)
    with Line assms(1) show ?thesis by (simp add: wake_reader_def)
  next
    case (Inr s1)
    with Line assms(1) have "join_reader E s1 = Some s'"
      by (auto simp: wake_reader_def)
    from join_reader_blind [OF this assms(2)] read_data_blind [OF Inr assms(2)]
    show ?thesis by simp
  qed
qed (use assms(1) in \<open>simp_all add: wake_reader_def\<close>)

lemma wake_sinks_blind:
  assumes "wake_sinks ps s = Some (ks, s')" "sink_blind f"
  shows "f s' = f s"
  using assms(1)
proof (induction ps arbitrary: s ks)
  case Nil
  then show ?case by simp
next
  case (Cons p ps)
  from Cons.prems obtain k s1 ks' where 1: "wake_sink p s = Some (k, s1)"
    and 2: "wake_sinks ps s1 = Some (ks', s')"
    by (auto split: option.splits)
  from Cons.IH [OF 2] wake_sink_blind [OF 1 assms(2)] show ?case by simp
qed

lemma wake_readers_blind:
  assumes "wake_readers E ps s = Some (ks, s')" "reader_blind f"
  shows "f s' = f s"
  using assms(1)
proof (induction ps arbitrary: s ks)
  case Nil
  then show ?case by simp
next
  case (Cons p ps)
  from Cons.prems obtain k s1 ks' where 1: "wake_reader E p s = Some (k, s1)"
    and 2: "wake_readers E ps s1 = Some (ks', s')"
    by (auto split: option.splits)
  from Cons.IH [OF 2] wake_reader_blind [OF 1 assms(2)] show ?case by simp
qed

lemma run_earlier_sinks_blind:
  assumes "run_earlier_sinks s = Some s'" "sink_blind f"
  shows "f s' = f s"
proof -
  from assms(1) obtain ps s0 where 0: "wake_sinks (earlier_sinks s) s = Some (ps, s0)"
    and s': "s' = s0\<lparr>earlier_sinks := ps\<rparr>"
    by (auto simp: run_earlier_sinks_def split: option.splits)
  have "f s' = f s0"
    using assms(2) by (simp add: s' sink_blind_def)
  with wake_sinks_blind [OF 0 assms(2)] show ?thesis by simp
qed

lemma run_earlier_readers_blind:
  assumes "run_earlier_readers E s = Some s'" "reader_blind f"
  shows "f s' = f s"
proof -
  from assms(1) obtain ps s0 where 0: "wake_readers E (earlier_readers s) s = Some (ps, s0)"
    and s': "s' = s0\<lparr>earlier_readers := ps\<rparr>"
    by (auto simp: run_earlier_readers_def split: option.splits)
  have "f s' = f s0"
    using assms(2) by (simp add: s' reader_blind_def)
  with wake_readers_blind [OF 0 assms(2)] show ?thesis by simp
qed

lemma run_streams_blind:
  assumes "run_streams E s = Some s'" "sink_blind f" "reader_blind f"
  shows "f s' = f s"
proof -
  from assms(1) obtain s1 s2 s3 where 1: "run_stderr s = Some s1"
    and 2: "run_read E s1 = Some s2" and 3: "run_earlier_sinks s2 = Some s3"
    and 4: "run_earlier_readers E s3 = Some s'"
    by (auto simp: run_streams_def split: option.splits)
  from run_stderr_blind [OF 1 assms(2)] run_read_blind [OF 2 assms(3)]
    run_earlier_sinks_blind [OF 3 assms(2)] run_earlier_readers_blind [OF 4 assms(3)]
  show ?thesis by simp
qed

text \<open>The watchers.\<close>

lemma wait_for_ready_blind:
  assumes "watcher_blind f"
  shows "f (wait_for_ready s) = f s"
proof (induction s rule: wait_for_ready.induct)
  case (1 s)
  show ?case
  proof (cases "queue s")
    case Nil
    then show ?thesis by (simp add: wait_for_ready.simps [of s])
  next
    case (Cons x q)
    show ?thesis
    proof (cases "py_get x ''ready''")
      case (Inl e)
      with Cons assms show ?thesis
        by (simp add: wait_for_ready.simps [of s] watcher_blind_def)
    next
      case (Inr r)
      show ?thesis
      proof (cases "truthy r")
        case True
        with Cons Inr assms show ?thesis
          by (simp add: wait_for_ready.simps [of s] watcher_blind_def)
      next
        case False
        have "f (wait_for_ready (s\<lparr>queue := q\<rparr>)) = f (s\<lparr>queue := q\<rparr>)"
          using Cons Inr False by (rule 1)
        with Cons Inr False assms show ?thesis
          by (simp add: wait_for_ready.simps [of s] watcher_blind_def)
      qed
    qed
  qed
qed

lemma earlier_watch_blind:
  assumes "watcher_blind f"
  shows "f (earlier_watch n s) = f s"
proof (induction n arbitrary: s)
  case 0
  with assms show ?case by (simp add: watcher_blind_def)
next
  case (Suc n)
  let ?s1 = "wait_for_ready (s\<lparr>ready_task := Running\<rparr>)"
  have "f (earlier_watch (Suc n) s) = f (earlier_watch n (?s1\<lparr>ready_task := ready_task s\<rparr>))"
    using assms by (simp add: Let_def watcher_blind_def)
  also have "\<dots> = f (?s1\<lparr>ready_task := ready_task s\<rparr>)"
    by (rule Suc.IH)
  also have "\<dots> = f ?s1"
    using assms by (simp add: watcher_blind_def)
  also have "\<dots> = f (s\<lparr>ready_task := Running\<rparr>)"
    using assms by (rule wait_for_ready_blind)
  finally show ?case
    using assms by (simp add: watcher_blind_def)
qed

lemma run_watchers_blind:
  assumes "watcher_blind f"
  shows "f (run_watchers s) = f s"
proof -
  let ?s1 = "run_earlier_watchers s"
  have 1: "f ?s1 = f s"
    unfolding run_earlier_watchers_def using assms by (rule earlier_watch_blind)
  have "f (run_ready ?s1) = f ?s1"
  proof (cases "ready_task ?s1 = Running")
    case True
    then have "run_ready ?s1 = wait_for_ready ?s1"
      by (simp add: run_ready_def)
    then show ?thesis
      using wait_for_ready_blind [OF assms, of ?s1] by simp
  next
    case False
    then show ?thesis by (simp add: run_ready_def)
  qed
  with 1 show ?thesis
    by (simp add: run_watchers_def)
qed

lemma pump_blind:
  assumes "pump E s = Some s'" "sink_blind f" "reader_blind f" "watcher_blind f"
  shows "f s' = f s"
proof -
  from assms(1) obtain sq where 1: "run_streams E s = Some sq" and s': "s' = run_watchers sq"
    by (auto simp: pump_def)
  from run_streams_blind [OF 1 assms(2,3)] run_watchers_blind [OF assms(4), of sq] s'
  show ?thesis by simp
qed

text \<open>What the watchers do to the gate.\<close>

lemma wait_for_ready_keeps:
  "(ready s \<longrightarrow> ready (wait_for_ready s))
   \<and> (ProcWait \<in> set (trace (wait_for_ready s)) \<longrightarrow> ProcWait \<in> set (trace s))"
proof (induction s rule: wait_for_ready.induct)
  case (1 s)
  show ?case
    using 1 by (subst (1 2) wait_for_ready.simps) (auto split: list.splits sum.splits)
qed

lemma wait_for_ready_watchers [simp]:
  "earlier_watchers (wait_for_ready s) = earlier_watchers s"
proof (induction s rule: wait_for_ready.induct)
  case (1 s)
  show ?case
    using 1 by (subst wait_for_ready.simps) (auto split: list.splits sum.splits)
qed

lemma wait_for_ready_ends:
  "\<not> ready s \<Longrightarrow> ready (wait_for_ready s) \<Longrightarrow> ready_task (wait_for_ready s) = Finished"
proof (induction s rule: wait_for_ready.induct)
  case (1 s)
  show ?case
  proof (cases "queue s")
    case Nil
    with 1(2,3) show ?thesis by (simp add: wait_for_ready.simps [of s])
  next
    case (Cons x q)
    show ?thesis
    proof (cases "py_get x ''ready''")
      case (Inl e)
      with Cons 1(2,3) show ?thesis by (simp add: wait_for_ready.simps [of s])
    next
      case (Inr r)
      show ?thesis
      proof (cases "truthy r")
        case True
        with Cons Inr show ?thesis by (simp add: wait_for_ready.simps [of s])
      next
        case False
        have w: "wait_for_ready s = wait_for_ready (s\<lparr>queue := q\<rparr>)"
          using Cons Inr False by (simp add: wait_for_ready.simps [of s])
        from 1(1) [OF Cons Inr False] 1(2,3) show ?thesis
          unfolding w by simp
      qed
    qed
  qed
qed

lemma earlier_watch_gate:
  "(ready s \<longrightarrow> ready (earlier_watch n s))
   \<and> ready_task (earlier_watch n s) = ready_task s
   \<and> earlier_watchers (earlier_watch n s) \<le> n
   \<and> (\<not> ready s \<longrightarrow> ready (earlier_watch n s) \<longrightarrow> earlier_watchers (earlier_watch n s) < n)
   \<and> (ProcWait \<in> set (trace (earlier_watch n s)) \<longrightarrow> ProcWait \<in> set (trace s))"
proof (induction n arbitrary: s)
  case 0
  show ?case by simp
next
  case (Suc n)
  let ?s1 = "wait_for_ready (s\<lparr>ready_task := Running\<rparr>)"
  let ?s2 = "earlier_watch n (?s1\<lparr>ready_task := ready_task s\<rparr>)"
  note k = wait_for_ready_keeps [of "s\<lparr>ready_task := Running\<rparr>"]
  note e = wait_for_ready_ends [of "s\<lparr>ready_task := Running\<rparr>"]
  note h = Suc.IH [of "?s1\<lparr>ready_task := ready_task s\<rparr>"]
  have 1: "ready s \<longrightarrow> ready (earlier_watch (Suc n) s)"
    using k h by (auto simp: Let_def)
  have 2: "ready_task (earlier_watch (Suc n) s) = ready_task s"
    using h by (auto simp: Let_def)
  have 3: "earlier_watchers (earlier_watch (Suc n) s) \<le> Suc n"
    using h by (auto simp: Let_def)
  have 4: "earlier_watchers (earlier_watch (Suc n) s) < Suc n"
    if "\<not> ready s" "ready (earlier_watch (Suc n) s)"
  proof (cases "ready ?s1")
    case True
    with e that(1) have "ready_task ?s1 = Finished" by simp
    then have "earlier_watch (Suc n) s = ?s2"
      by (simp add: Let_def)
    with h show ?thesis by simp
  next
    case False
    from that(2) have "ready ?s2"
      by (auto simp: Let_def split: if_splits)
    with False h have "earlier_watchers ?s2 < n" by simp
    then show ?thesis
      by (auto simp: Let_def)
  qed
  have 5: "ProcWait \<in> set (trace (earlier_watch (Suc n) s)) \<longrightarrow> ProcWait \<in> set (trace s)"
    using k h by (auto simp: Let_def)
  from 1 2 3 4 5 show ?case by blast
qed

lemma run_ready_gate: "gate_step s (run_ready s)"
  using wait_for_ready_keeps [of s] by (auto simp: gate_step_def run_ready_def)

lemma run_earlier_watchers_gate: "gate_step s (run_earlier_watchers s)"
proof (cases "earlier_watchers s")
  case 0
  then show ?thesis by (simp add: run_earlier_watchers_def gate_step_def)
next
  case (Suc n)
  with earlier_watch_gate [of s "Suc n"] show ?thesis
    by (auto simp: run_earlier_watchers_def gate_step_def)
qed

lemma run_watchers_gate: "gate_step s (run_watchers s)"
  unfolding run_watchers_def
  using run_earlier_watchers_gate run_ready_gate by (rule gate_step_trans)

lemma run_streams_frame:
  assumes "run_streams E s = Some s'"
  shows "ready s' = ready s" "ready_task s' = ready_task s" "trace s' = trace s"
    "earlier_watchers s' = earlier_watchers s" "writer s' = writer s" "proc s' = proc s"
    "reader_eof s' = reader_eof s" "stderr_eof s' = stderr_eof s"
    "writer_eof s' = writer_eof s" "writer_closed s' = writer_closed s"
    "logger_disabled s' = logger_disabled s"
  by (rule run_streams_blind [OF assms]; simp add: sink_blind_def reader_blind_def)+

lemma run_streams_gate:
  assumes "run_streams E s = Some s'"
  shows "gate_step s s'"
  by (simp add: gate_step_def run_streams_frame [OF assms])

lemma pump_gate:
  assumes "pump E s = Some s'"
  shows "gate_step s s'"
proof -
  from assms obtain sq where 1: "run_streams E s = Some sq" and s': "s' = run_watchers sq"
    by (auto simp: pump_def)
  from run_streams_gate [OF 1] run_watchers_gate [of sq] show ?thesis
    unfolding s' by (rule gate_step_trans)
qed

lemma pump_frame:
  assumes "pump E s = Some s'"
  shows "writer s' = writer s" "proc s' = proc s" "reader_eof s' = reader_eof s"
    "stderr_eof s' = stderr_eof s" "writer_eof s' = writer_eof s"
    "writer_closed s' = writer_closed s" "logger_disabled s' = logger_disabled s"
  by (rule pump_blind [OF assms];
      simp add: sink_blind_def reader_blind_def watcher_blind_def)+

lemma bnd_gate:
  assumes "bnd m f = Some (r, s')"
    and "\<And>x s1. m = Some (x, s1) \<Longrightarrow> gate_step s s1"
    and "\<And>a s1. f a s1 = Some (r, s') \<Longrightarrow> gate_step s1 s'"
  shows "gate_step s s'"
  using assms
  by (auto simp: bnd_def split: option.splits outcome.splits prod.splits
        intro: gate_step_trans)

lemma ensure_ready_gate: "ensure_ready E s = Some (r, s') \<Longrightarrow> gate_step s s'"
  by (auto simp: ensure_ready_def split: if_splits option.splits dest: pump_gate)

lemma write'_gate: "write' E d s = Some (r, s') \<Longrightarrow> gate_step s s'"
  by (auto simp: write'_def gate_step_def split: option.splits sum.splits prod.splits)

lemma queue_get_gate: "queue_get E s = Some (r, s') \<Longrightarrow> gate_step s s'"
  by (auto simp: queue_get_def gate_step_def split: if_splits option.splits list.splits
        dest!: pump_gate)

lemma get_result_gate: "get_result E s = Some (r, s') \<Longrightarrow> gate_step s s'"
  unfolding get_result_def
  by (erule bnd_gate) (auto dest: queue_get_gate split: if_splits sum.splits)

lemma bnd_SomeE:
  assumes "bnd m f = Some (r, s')"
  obtains (stop) e where "m = Some (Raised e, s')" "r = Raised e"
  | (block) "m = Some (Blocked, s')" "r = Blocked"
  | (go) a s1 where "m = Some (Returned a, s1)" "f a s1 = Some (r, s')"
  using assms
  by (auto simp: bnd_def split: option.splits outcome.splits prod.splits)

lemma ensure_ready_Returned: "ensure_ready E s = Some (Returned u, s') \<Longrightarrow> ready s'"
  by (auto simp: ensure_ready_def split: if_splits option.splits)

lemma simple_call_gate:
  assumes "bnd (ensure_ready E (emit l s)) (\<lambda>_ s. bnd (write' E d s) (\<lambda>_ s. get_result E s))
             = Some (r, s')"
  shows "gate_step s s'"
  using assms
  by (elim bnd_SomeE)
     (blast intro: gate_step_trans gate_step_emit ensure_ready_gate write'_gate get_result_gate)+

lemma simple_call_Returned:
  assumes "bnd (ensure_ready E s) (\<lambda>_ s. bnd (write' E d s) (\<lambda>_ s. get_result E s))
             = Some (Returned v, s')"
  shows "ready s'"
proof -
  from assms obtain s1 s2 where "ensure_ready E s = Some (Returned (), s1)"
    and "write' E d s1 = Some (Returned (), s2)" and "get_result E s2 = Some (Returned v, s')"
    by (elim bnd_SomeE) auto
  then show ?thesis
    using ensure_ready_Returned write'_gate get_result_gate
    by (metis gate_step_def)
qed

lemma connect_gate: "connect E s = Some (r, s') \<Longrightarrow> gate_step s s'"
  unfolding connect_def by (rule simple_call_gate)

lemma disconnect_gate: "disconnect E s = Some (r, s') \<Longrightarrow> gate_step s s'"
  unfolding disconnect_def by (rule simple_call_gate)

lemma status_gate: "status E s = Some (r, s') \<Longrightarrow> gate_step s s'"
  unfolding status_def by (rule simple_call_gate)

lemma connect_Returned: "connect E s = Some (Returned v, s') \<Longrightarrow> ready s'"
  unfolding connect_def by (rule simple_call_Returned)

lemma status_Returned: "status E s = Some (Returned v, s') \<Longrightarrow> ready s'"
  unfolding status_def by (rule simple_call_Returned)

lemma gate_step_logger [simp]:
  "gate_step s (s\<lparr>logger_disabled := b\<rparr>)" "gate_step (s\<lparr>logger_disabled := b\<rparr>) s"
  by (simp_all add: gate_step_def)

lemma ensure_connected_gate:
  assumes "ensure_connected E s = Some (r, s')"
  shows "gate_step s s'"
  using assms unfolding ensure_connected_def
  by (elim bnd_SomeE)
     (auto split: sum.splits if_splits elim!: bnd_SomeE
        dest!: ensure_ready_gate status_gate connect_gate simp: gate_step_def)

lemma ensure_connected_Returned:
  assumes "ensure_connected E s = Some (Returned u, s')"
  shows "ready s'"
  using assms unfolding ensure_connected_def
  by (elim bnd_SomeE)
     (auto split: sum.splits if_splits elim!: bnd_SomeE
        dest!: status_Returned connect_Returned)

lemma prelude_gate: "prelude E r s = Some (x, s') \<Longrightarrow> gate_step s s'"
  by (cases r)
     (auto elim!: bnd_SomeE dest!: ensure_ready_gate ensure_connected_gate
        simp: gate_step_def)

lemma prelude_Returned: "prelude E r s = Some (Returned u, s') \<Longrightarrow> ready s'"
  by (cases r)
     (auto elim!: bnd_SomeE dest: ensure_ready_Returned ensure_connected_Returned)

lemma call_gate:
  assumes "call E r s = Some (x, s')"
  shows "gate_step s s'"
  using assms unfolding call_skeleton
  by (elim bnd_SomeE)
     (blast intro: gate_step_trans prelude_gate write'_gate get_result_gate)+



section \<open>The watcher\<close>





lemma wait_for_ready_empty:
  assumes "queue s = []"
  shows "wait_for_ready s = s"
  using assms by (simp add: wait_for_ready.simps [of s])

lemma stop_gate:
  assumes "stop E s = Some (x, s')" "ready_task s \<noteq> Running" "earlier_watchers s = 0"
    "\<not> ready s"
  shows "ready_task s' = ready_task s \<and> earlier_watchers s' = 0 \<and> \<not> ready s'"
  using assms unfolding stop_def
  by (elim bnd_SomeE) (auto dest!: disconnect_gate simp: gate_step_def)

lemma perform_dead:
  assumes "perform E a s = Some s'" "a \<noteq> Start" "ready_task s \<noteq> Running"
    "earlier_watchers s = 0" "\<not> ready s"
  shows "ready_task s' = ready_task s \<and> earlier_watchers s' = 0 \<and> \<not> ready s'"
proof (cases a)
  case Stop
  with assms show ?thesis by (auto dest!: stop_gate)
next
  case Start
  with assms show ?thesis by simp
qed (use assms in \<open>auto simp: feed_def gate_step_def
        dest!: call_gate ensure_ready_gate ensure_connected_gate pump_gate\<close>)

lemma run_actions_dead:
  assumes "run_actions E as s = Some s'" "Start \<notin> set as" "ready_task s \<noteq> Running"
    "earlier_watchers s = 0" "\<not> ready s"
  shows "ready_task s' = ready_task s \<and> earlier_watchers s' = 0 \<and> \<not> ready s'"
  using assms
proof (induction as arbitrary: s)
  case Nil
  then show ?case by simp
next
  case (Cons a as)
  from Cons.prems obtain s1 where a: "perform E a s = Some s1"
    and rest: "run_actions E as s1 = Some s'"
    by (auto split: option.splits)
  have "ready_task s1 = ready_task s \<and> earlier_watchers s1 = 0 \<and> \<not> ready s1"
    using a Cons.prems by (intro perform_dead) auto
  then show ?case
    using Cons.IH [OF rest] Cons.prems by auto
qed






text \<open>The values the watchers take.\<close>

lemma watched_refl [simp]: "watched s s"
  by (simp add: watched_def)



lemma watched_ready_task [simp]:
  "watched (s\<lparr>ready_task := t\<rparr>) s' = watched s s'"
  "watched s (s'\<lparr>ready_task := t\<rparr>) = watched s s'"
  "watched s (s'\<lparr>earlier_watchers := n\<rparr>) = watched s s'"
  by (simp_all add: watched_def)




section \<open>Traces\<close>

lemma wait_for_ready_trace:
  "\<exists>m. trace (wait_for_ready s) = trace s @ m \<and> set m \<subseteq> {EventSet}"
proof (induction s rule: wait_for_ready.induct)
  case (1 s)
  show ?case
  proof (cases "queue s")
    case Nil
    then show ?thesis by (simp add: wait_for_ready_empty)
  next
    case (Cons x xs)
    show ?thesis
    proof (cases "py_get x ''ready''")
      case (Inl e)
      with Cons show ?thesis by (simp add: wait_for_ready.simps [of s])
    next
      case (Inr r)
      show ?thesis
      proof (cases "truthy r")
        case True
        with Cons Inr have "trace (wait_for_ready s) = trace s @ [EventSet]"
          by (simp add: wait_for_ready.simps [of s])
        then show ?thesis by simp
      next
        case False
        with Cons Inr have "wait_for_ready s = wait_for_ready (s\<lparr>queue := xs\<rparr>)"
          by (simp add: wait_for_ready.simps [of s])
        with 1 [OF Cons Inr False] show ?thesis by simp
      qed
    qed
  qed
qed

lemma earlier_watch_trace:
  "\<exists>m. trace (earlier_watch n s) = trace s @ m \<and> set m \<subseteq> {EventSet}"
proof (induction n arbitrary: s)
  case 0
  show ?case by simp
next
  case (Suc n)
  let ?s1 = "wait_for_ready (s\<lparr>ready_task := Running\<rparr>)"
  from wait_for_ready_trace [of "s\<lparr>ready_task := Running\<rparr>"]
  obtain m1 where 1: "trace ?s1 = trace s @ m1" "set m1 \<subseteq> {EventSet}"
    by auto
  from Suc.IH [of "?s1\<lparr>ready_task := ready_task s\<rparr>"]
  obtain m2 where 2: "trace (earlier_watch n (?s1\<lparr>ready_task := ready_task s\<rparr>))
                        = trace ?s1 @ m2" "set m2 \<subseteq> {EventSet}"
    by auto
  have "trace (earlier_watch (Suc n) s) = trace s @ (m1 @ m2)"
    using 1(1) 2(1) by (simp add: Let_def)
  moreover have "set (m1 @ m2) \<subseteq> {EventSet}"
    using 1(2) 2(2) by simp
  ultimately show ?case by blast
qed

lemma run_watchers_trace:
  "\<exists>m. trace (run_watchers s) = trace s @ m \<and> set m \<subseteq> {EventSet}"
proof -
  let ?s1 = "run_earlier_watchers s"
  from earlier_watch_trace [of "earlier_watchers s" s]
  obtain m1 where 1: "trace ?s1 = trace s @ m1" "set m1 \<subseteq> {EventSet}"
    by (auto simp: run_earlier_watchers_def)
  have "\<exists>m. trace (run_ready ?s1) = trace ?s1 @ m \<and> set m \<subseteq> {EventSet}"
    using wait_for_ready_trace [of ?s1] by (simp add: run_ready_def)
  then obtain m2 where 2: "trace (run_ready ?s1) = trace ?s1 @ m2" "set m2 \<subseteq> {EventSet}"
    by auto
  have "trace (run_watchers s) = trace s @ (m1 @ m2)"
    using 1(1) 2(1) by (simp add: run_watchers_def)
  moreover have "set (m1 @ m2) \<subseteq> {EventSet}"
    using 1(2) 2(2) by simp
  ultimately show ?thesis by blast
qed

lemma pump_trace:
  assumes "pump E s = Some s'"
  shows "\<exists>m. trace s' = trace s @ m \<and> set m \<subseteq> {EventSet}"
proof -
  from assms obtain sq where sq: "run_streams E s = Some sq" and s': "s' = run_watchers sq"
    by (auto simp: pump_def)
  from run_watchers_trace [of sq] run_streams_frame(3) [OF sq] s' show ?thesis
    by simp
qed

lemma ensure_ready_trace:
  assumes "ensure_ready E s = Some (x, s')"
  shows "\<exists>m. trace s' = trace s @ m \<and> set m \<subseteq> {EventSet}"
  using assms pump_trace [of E s]
  by (auto simp: ensure_ready_def split: if_splits option.splits)

lemma write'_Returned:
  assumes "write' E d s = Some (Returned u, s')"
  shows "\<exists>b. encoded E d = Some b
           \<and> trace s' = trace s @ [Write b, Write [newline], Drain]
           \<and> writer s' = writer s @ b @ [newline]"
  using assms by (auto simp: write'_def encoded_def split: option.splits sum.splits prod.splits)

lemma queue_get_Returned:
  assumes "queue_get E s = Some (Returned v, s')"
  shows "\<exists>m. trace s' = trace s @ m @ [Got v] \<and> set m \<subseteq> {EventSet}"
proof (cases "queue s = []")
  case True
  with assms obtain s1 where p: "pump E s = Some s1" and "trace s' = trace s1 @ [Got v]"
    by (auto simp: queue_get_def split: option.splits list.splits)
  with pump_trace [OF p] show ?thesis by auto
next
  case False
  with assms have "trace s' = trace s @ [] @ [Got v]"
    by (auto simp: queue_get_def split: list.splits)
  then show ?thesis by (intro exI [of _ "[]"]) simp
qed

lemma get_result_Returned:
  assumes "get_result E s = Some (Returned v, s')"
  shows "queue_get E s = Some (Returned v, s')"
  using assms unfolding get_result_def
  by (elim bnd_SomeE) (auto split: if_splits sum.splits)

lemma simple_call_trace:
  assumes "bnd (ensure_ready E (emit l s)) (\<lambda>_ s. bnd (write' E d s) (\<lambda>_ s. get_result E s))
             = Some (Returned v, s')"
  shows "\<exists>b m1 m2. encoded E d = Some b
           \<and> trace s' = trace s @ m1 @ [Write b, Write [newline], Drain] @ m2 @ [Got v]
           \<and> set m1 \<subseteq> {EventSet} \<and> set m2 \<subseteq> {EventSet}"
proof -
  from assms obtain s1 s2 where 1: "ensure_ready E (emit l s) = Some (Returned (), s1)"
    and 2: "write' E d s1 = Some (Returned (), s2)"
    and 3: "get_result E s2 = Some (Returned v, s')"
    by (elim bnd_SomeE) auto
  from ensure_ready_trace [OF 1] obtain m1 where "trace s1 = trace s @ m1" "set m1 \<subseteq> {EventSet}"
    by auto
  moreover from write'_Returned [OF 2] obtain b where "encoded E d = Some b"
    "trace s2 = trace s1 @ [Write b, Write [newline], Drain]"
    by auto
  moreover from queue_get_Returned [OF get_result_Returned [OF 3]]
  obtain m2 where "trace s' = trace s2 @ m2 @ [Got v]" "set m2 \<subseteq> {EventSet}"
    by auto
  ultimately show ?thesis by auto
qed

section \<open>What reaches the child\<close>

lemma wait_for_ready_writer: "writer (wait_for_ready s) = writer s"
proof (induction s rule: wait_for_ready.induct)
  case (1 s)
  show ?case
    using 1 by (subst wait_for_ready.simps) (auto split: list.splits sum.splits)
qed

lemma pump_writer:
  assumes "pump E s = Some s'"
  shows "writer s' = writer s"
  using assms by (rule pump_frame)

lemma ensure_ready_writer: "ensure_ready E s = Some (x, s') \<Longrightarrow> writer s' = writer s"
  by (auto simp: ensure_ready_def pump_writer split: if_splits option.splits)

lemma queue_get_writer: "queue_get E s = Some (x, s') \<Longrightarrow> writer s' = writer s"
  by (auto simp: queue_get_def pump_writer split: if_splits option.splits list.splits)

lemma get_result_writer: "get_result E s = Some (x, s') \<Longrightarrow> writer s' = writer s"
  unfolding get_result_def
  by (elim bnd_SomeE) (auto dest: queue_get_writer split: if_splits sum.splits)

lemma write'_writer:
  assumes "write' E d s = Some (x, s')" "encoded E d = Some b"
  shows "x = Returned () \<and> writer s' = writer s @ b @ [newline] \<and> ready s' = ready s"
  using assms by (auto simp: write'_def encoded_def split: sum.splits prod.splits)

lemma write'_total:
  assumes "encoded E d = Some b"
  shows "\<exists>s2. write' E d s = Some (Returned (), s2)"
  using assms by (simp add: write'_def encoded_def split: sum.splits prod.splits)

lemma simple_call_writer:
  assumes "bnd (ensure_ready E (emit l s)) (\<lambda>_ s. bnd (write' E d s) (\<lambda>_ s. get_result E s))
             = Some (x, s')"
    and "encoded E d = Some b" and "ready s"
  shows "writer s' = writer s @ b @ [newline]"
proof -
  have 1: "ensure_ready E (emit l s) = Some (Returned (), emit l s)"
    using assms(3) by (simp add: ensure_ready_def)
  obtain s2 where 2: "write' E d (emit l s) = Some (Returned (), s2)"
    using write'_total [OF assms(2)] by blast
  from assms(1) have 3: "get_result E s2 = Some (x, s')"
    by (simp add: 1 2)
  from write'_writer [OF 2 assms(2)] get_result_writer [OF 3] show ?thesis by simp
qed

section \<open>End of stream\<close>

lemma readline_eof_not_Wait: "readline buf True \<noteq> Wait"
  by (simp add: readline_def Let_def)

lemma readline_empty_eof: "readline [] True = Line [] []"
  by (simp add: readline_def)

lemma redirect_stderr_at_eof:
  assumes "redirect_stderr s = Some s'"
  shows "stderr_eof s \<longrightarrow> (\<exists>e. stderr_task s' = Died e)"
  by (rule redirect_stderr.raw_induct
        [where P = "\<lambda>s s'. stderr_eof s \<longrightarrow> (\<exists>e. stderr_task s' = Died e)", OF _ assms])
     (auto simp: emit_def readline_eof_not_Wait
        split: readline_result.splits option.splits if_splits)

lemma redirect_stderr_closed_empty:
  assumes "stderr_eof s" "stderr s = []"
  shows "redirect_stderr s = None"
proof (rule ccontr)
  assume "redirect_stderr s \<noteq> None"
  then obtain s' where r: "redirect_stderr s = Some s'" by auto
  have "\<not> (stderr_eof s \<and> stderr s = [])"
    by (rule redirect_stderr.raw_induct
          [where P = "\<lambda>s s'. \<not> (stderr_eof s \<and> stderr s = [])", OF _ r])
       (fastforce simp: readline_empty_eof utf8_decode_def strip_def
          split: readline_result.splits option.splits if_splits)
  with assms show False by simp
qed

section \<open>Reading lines\<close>

lemma readline_line:
  assumes "newline \<notin> set l" "length l \<le> limit"
  shows "readline (l @ newline # rest) eof = Line (l @ [newline]) rest"
proof -
  have "takeWhile (\<lambda>c. c \<noteq> newline) (l @ newline # rest) = l"
    using assms(1) by (induction l) auto
  moreover have "dropWhile (\<lambda>c. c \<noteq> newline) (l @ newline # rest) = newline # rest"
    using assms(1) by (induction l) auto
  ultimately show ?thesis
    using assms(2) by (simp add: readline_def)
qed


lemma readline_wait: "readline [] False = Wait"
  by (simp add: readline_def)

lemma read_idle:
  assumes "reader s = []" "\<not> reader_eof s"
  shows "read E s = Some s"
  using assms by (simp add: read.simps [of E s] readline_wait)

lemma read_step:
  assumes "wellframed l" "reader s = l @ newline # rest"
  shows "read E s =
           (case loads E (text_of l) of
              Inr v \<Rightarrow> read E (s\<lparr>reader := rest, queue := queue s @ [v]\<rparr>)
            | Inl e \<Rightarrow>
                if e = JSONDecodeError
                then read E (emit (LogWarning (text_of l)) (s\<lparr>reader := rest\<rparr>))
                else Some (s\<lparr>reader := rest, read_task := Died e\<rparr>))"
proof -
  from assms(1) obtain t where t: "utf8_decode (l @ [newline]) = Some t"
    by (auto simp: wellframed_def)
  have "readline (reader s) (reader_eof s) = Line (l @ [newline]) rest"
    using assms by (simp add: wellframed_def readline_line)
  moreover have "text_of l = strip t"
    by (simp add: text_of_def t)
  ultimately show ?thesis
    by (simp add: read.simps [of E s] t split: sum.splits)
qed

lemma read_lines:
  assumes "\<forall>l\<in>set ls. readable E l" "reader s = wire ls" "\<not> reader_eof s"
  shows "read E s =
           Some (s\<lparr>reader := [], queue := queue s @ entries E ls,
                   logs := logs s @ (if logger_disabled s then [] else warnings E ls)\<rparr>)"
  using assms
proof (induction ls arbitrary: s)
  case Nil
  then have "read E s = Some s"
    by (intro read_idle) (simp_all add: wire_def)
  moreover have "s\<lparr>reader := [], queue := queue s @ [], logs := logs s @ []\<rparr> = s"
    using Nil by (simp add: wire_def)
  ultimately show ?case
    by (simp add: entries_def warnings_def map_filter_simps)
next
  case (Cons l ls)
  have wf: "wellframed l" and r: "reader s = l @ newline # wire ls"
    and je: "\<And>e. loads E (text_of l) = Inl e \<Longrightarrow> e = JSONDecodeError"
    using Cons.prems by (simp_all add: wire_def readable_def)
  show ?case
  proof (cases "loads E (text_of l)")
    case (Inl e)
    then have e: "loads E (text_of l) = Inl JSONDecodeError"
      using je by simp
    let ?s1 = "emit (LogWarning (text_of l)) (s\<lparr>reader := wire ls\<rparr>)"
    have "read E s = read E ?s1"
      using read_step [OF wf r, of E] e by simp
    also have "\<dots> = Some (?s1\<lparr>reader := [], queue := queue ?s1 @ entries E ls,
                   logs := logs ?s1 @ (if logger_disabled ?s1 then [] else warnings E ls)\<rparr>)"
      using Cons.prems by (intro Cons.IH) (simp_all add: emit_def)
    finally show ?thesis
      using e by (simp add: emit_def entries_def warnings_def map_filter_simps)
  next
    case (Inr v)
    let ?s1 = "s\<lparr>reader := wire ls, queue := queue s @ [v]\<rparr>"
    have "read E s = read E ?s1"
      using read_step [OF wf r, of E] Inr by simp
    also have "\<dots> = Some (?s1\<lparr>reader := [], queue := queue ?s1 @ entries E ls,
                   logs := logs ?s1 @ (if logger_disabled ?s1 then [] else warnings E ls)\<rparr>)"
      using Cons.prems by (intro Cons.IH) simp_all
    finally show ?thesis
      using Inr by (simp add: entries_def warnings_def map_filter_simps)
  qed
qed

text \<open>A line on which \<open>json.loads\<close> raises anything but \<open>JSONDecodeError\<close> ends the reader.\<close>

lemma read_dies_on_loads_error:
  assumes "wellframed l" "reader s = l @ newline # rest"
    and "loads E (text_of l) = Inl e" "e \<noteq> JSONDecodeError"
  shows "read E s = Some (s\<lparr>reader := rest, read_task := Died e\<rparr>)"
  using read_step [OF assms(1,2), of E] assms(3,4) by simp

section \<open>Framing\<close>










section \<open>One round trip\<close>

lemma gots_append [simp]: "gots (a @ b) = gots a @ gots b"
  by (induction a rule: gots.induct) auto












lemma outcome_of_not_Blocked [simp]: "outcome_of v \<noteq> Blocked"
  by (cases v) (simp_all split: option.splits)

section \<open>Serving requests\<close>







lemma idle_emit [simp]: "idle (emit l s) = idle s"
  by (simp add: idle_def)

lemma idle_logger [simp]: "idle (s\<lparr>logger_disabled := b\<rparr>) = idle s"
  by (simp add: idle_def)

lemma proc_emit [simp]: "proc (emit l s) = proc s"
  by (simp add: emit_def)























text \<open>The equations that run the model on a concrete world.\<close>

lemmas run_simps =
  started_def start_def init_def scripted_def line_def obj1_def quoted_def sample_loads_def
  known_values_def sample_text_def encoded_def
  ready_session_def sample_dumps_def status_def connect_def disconnect_def ensure_connected_def get_model_def
  ensure_ready_def pump_def feed_def run_actions.simps perform.simps run_stderr_def run_read_def run_ready_def
  run_streams_def run_watchers_def run_earlier_sinks_def run_earlier_readers_def
  run_earlier_watchers_def wake_sink_def wake_reader_def join_sink_def join_reader_def
  stray_sink_def stray_reader_def sink_data_def read_data_def arrive_def close_pipe_def
  read.simps redirect_stderr.simps wait_for_ready.simps readline_def newline_def limit_def
  utf8_decode_def utf8_encode_def cont_def strip_def isspace_def str_def emit_def
  write'_def queue_get_def get_result_def bnd_def char_of_def bit_Suc_0_iff

lemmas wire_simps = wire_def wellframed_def text_of_def entries_def warnings_def
  map_filter_def garbled_def undecodable_def readable_def

section \<open>Results of a remote call\<close>

text \<open>
  C10.  A dequeued response that is a dict whose \<open>error\<close> entry is present but falsy is
  not an error: \<open>_get_result\<close> returns the dict itself, and the state is the one the
  dequeue left.
\<close>

theorem get_result_falsy_error:
  assumes "queue_get E s = Some (Returned (JObj kvs), s')"
    and "map_of kvs ''error'' = Some e"
    and "\<not> truthy e"
  shows "get_result E s = Some (Returned (JObj kvs), s')"
  using assms by (simp add: get_result_cases)

theorem get_result_falsy_error_witness:
  "get_result (scripted [] []) ((init [])\<lparr>queue := [JObj [(''error'', JStr [])]]\<rparr>)
     = Some (Returned (JObj [(''error'', JStr [])]),
             (init [])\<lparr>trace := [Got (JObj [(''error'', JStr [])])]\<rparr>)
   \<and> get_result (scripted [] []) ((init [])\<lparr>queue := [JObj [(''error'', JBool False)]]\<rparr>)
     = Some (Returned (JObj [(''error'', JBool False)]),
             (init [])\<lparr>trace := [Got (JObj [(''error'', JBool False)])]\<rparr>)
   \<and> get_result (scripted [] []) ((init [])\<lparr>queue := [JObj [(''error'', JNull)]]\<rparr>)
     = Some (Returned (JObj [(''error'', JNull)]),
             (init [])\<lparr>trace := [Got (JObj [(''error'', JNull)])]\<rparr>)
   \<and> get_result (scripted [] []) ((init [])\<lparr>queue := [JObj [(''error'', JInt 0)]]\<rparr>)
     = Some (Returned (JObj [(''error'', JInt 0)]),
             (init [])\<lparr>trace := [Got (JObj [(''error'', JInt 0)])]\<rparr>)"
proof -
  have dq: "\<And>v. queue_get (scripted [] []) ((init [])\<lparr>queue := [v]\<rparr>)
              = Some (Returned v, (init [])\<lparr>trace := [Got v]\<rparr>)"
    by (simp add: queue_get_def init_def)
  show ?thesis
    using get_result_falsy_error [OF dq, of "[(''error'', JStr [])]" "JStr []"]
      get_result_falsy_error [OF dq, of "[(''error'', JBool False)]" "JBool False"]
      get_result_falsy_error [OF dq, of "[(''error'', JNull)]" "JNull"]
      get_result_falsy_error [OF dq, of "[(''error'', JInt 0)]" "JInt 0"]
    by simp
qed

text \<open>
  C1.  Take any of the seven remote calls whose prelude and write have gone through and
  whose \<open>_get_result\<close> dequeues the value \<open>v\<close>, leaving the state \<open>s3\<close>.  If \<open>v\<close> is a dict
  with a truthy \<open>error\<close> entry \<open>e\<close>, the call raises \<open>JavaScriptError e\<close>; otherwise it
  returns \<open>v\<close> itself.  Either way the state is \<open>s3\<close>, the one the dequeue left: raising
  changes nothing, and the gate, set before the dequeue, is still set.
\<close>

theorem rpc_result:
  assumes "prelude E r s = Some (Returned (), s1)"
    and "write' E (command r) s1 = Some (Returned (), s2)"
    and "queue_get E s2 = Some (Returned v, s3)"
  shows "(\<forall>kvs e. v = JObj kvs \<longrightarrow> map_of kvs ''error'' = Some e \<longrightarrow> truthy e \<longrightarrow>
            call E r s = Some (Raised (JavaScriptError e), s3))
       \<and> (\<not> (\<exists>kvs e. v = JObj kvs \<and> map_of kvs ''error'' = Some e \<and> truthy e) \<longrightarrow>
            call E r s = Some (Returned v, s3))
       \<and> ready s2 \<and> ready s3"
proof -
  have "ready s1"
    using assms(1) by (rule prelude_Returned)
  then have "ready s2" "ready s3"
    using write'_gate [OF assms(2)] queue_get_gate [OF assms(3)]
    by (auto simp: gate_step_def)
  moreover have "call E r s = get_result E s2"
    using assms(1,2) by (simp add: call_skeleton)
  ultimately show ?thesis
    by (cases v) (auto simp: get_result_cases [OF assms(3)] split: option.splits)
qed

theorem rpc_result_witness:
  "\<exists>s3. call (scripted [] []) Status
           (started (line (obj1 ''ready'' ''true'')) [line (obj1 ''error'' (quoted ''X''))])
         = Some (Raised (JavaScriptError (JStr ''X'')), s3)
        \<and> ready s3"
proof -
  let ?E = "scripted [] [] :: (bytes list) env"
  let ?s = "started (line (obj1 ''ready'' ''true'')) [line (obj1 ''error'' (quoted ''X''))]"
  obtain s1 where h1: "prelude ?E Status ?s = Some (Returned (), s1)"
    and s1: "s1 = snd (the (prelude ?E Status ?s))"
    by (simp add: run_simps)
  obtain s2 where h2: "write' ?E (command Status) s1 = Some (Returned (), s2)"
    and s2: "s2 = snd (the (write' ?E (command Status) s1))"
    by (simp add: s1 run_simps)
  obtain s3 where h3: "queue_get ?E s2 = Some (Returned (JObj [(''error'', JStr ''X'')]), s3)"
    by (simp add: s2 s1 run_simps)
  show ?thesis
    using rpc_result [OF h1 h2 h3] by simp
qed

section \<open>The readiness gate\<close>



text \<open>
  C9, as the specification states it, fails when \<open>start\<close> is awaited a second time while
  the watcher of the first is still waiting: nothing cancels that watcher.  Here the
  line \<open>[1]\<close> arrives ahead of the ready message.  The watcher that dequeues the list is
  dead afterwards (no earlier watcher is left, and the value is gone from the queue), and
  the ready message that follows sets the gate all the same, through the other watcher.
\<close>

theorem gate_set_beside_dead_watcher:
  "map_option (\<lambda>s. (earlier_watchers s, ready_task s, ready s, queue s))
     (run_actions (scripted [] []) [Start, Start] (init []))
     = Some (1, Running, False, [])
   \<and> map_option (\<lambda>s. (earlier_watchers s, ready_task s, ready s, queue s))
       (run_actions (scripted [] []) [Start, Start, Feed (line ''[1]'')] (init []))
     = Some (0, Running, False, [])
   \<and> map_option (\<lambda>s. (earlier_watchers s, ready_task s, ready s, queue s))
       (run_actions (scripted [] [])
          [Start, Start, Feed (line ''[1]''), Feed (line (obj1 ''ready'' ''true''))] (init []))
     = Some (0, Finished, True, [])"
  by (simp add: run_simps)



text \<open>
  C4, as the specification states it, fails in its last clause: after \<open>stop\<close> and \<open>start\<close>
  no fresh ready message is needed.  Here the first child prints three ready lines.  The
  first sets the gate; \<open>stop\<close> takes the second for the answer to its \<open>disconnect\<close> and
  clears the gate; the third is still queued.  After the second \<open>start\<close> the gate is
  unset and the new child has printed nothing; \<open>ensure_ready\<close> returns all the same, the
  new watcher having dequeued the marker left over.
\<close>

theorem stale_ready_marker:
  "map_option (\<lambda>s. (ready s, reader s, stderr s, queue s))
     (run_actions (scripted [] [line (obj1 ''status'' (quoted ''ok''))])
        [Start,
         Feed (line (obj1 ''ready'' ''true'') @ line (obj1 ''ready'' ''true'')
               @ line (obj1 ''ready'' ''true'')),
         Stop, Start] (init []))
     = Some (False, [], [],
             [JObj [(''ready'', JBool True)], JObj [(''status'', JStr ''ok'')]])
   \<and> map_option (\<lambda>s. (ready s, reader s, stderr s, queue s))
       (run_actions (scripted [] [line (obj1 ''status'' (quoted ''ok''))])
          [Start,
           Feed (line (obj1 ''ready'' ''true'') @ line (obj1 ''ready'' ''true'')
                 @ line (obj1 ''ready'' ''true'')),
           Stop, Start, EnsureReady] (init []))
     = Some (True, [], [], [JObj [(''status'', JStr ''ok'')]])"
  by (simp add: stop_def run_simps)

section \<open>Stopping\<close>

text \<open>
  C7.  \<open>stop\<close> first awaits \<open>disconnect\<close>; when that raises, \<open>stop\<close> raises the same error
  and does nothing more.  When it returns, the trace of the session continues with the
  write of the disconnect command, the value dequeued for it, then \<open>write_eof\<close>, \<open>close\<close>
  and \<open>ready.clear\<close>, in this order, and \<open>stop\<close> returns.  No wait for the child's exit is
  ever recorded.
\<close>

theorem stop_sequence:
  "(\<forall>e s1. disconnect E (emit (LogInfo ''Stopping NumWorks object'') s) = Some (Raised e, s1) \<longrightarrow>
       stop E s = Some (Raised e, s1))
   \<and> (\<forall>v s1. disconnect E (emit (LogInfo ''Stopping NumWorks object'') s)
                = Some (Returned v, s1) \<longrightarrow>
         stop E s = Some (Returned (),
                      s1\<lparr>writer_eof := True, writer_closed := True, ready := False,
                         trace := trace s1 @ [WriteEof, Close, EventClear]\<rparr>)
         \<and> (\<exists>b m1 m2.
               encoded E (JObj [(''method'', JStr ''disconnect'')]) = Some b
               \<and> trace s1 = trace s @ m1 @ [Write b, Write [newline], Drain] @ m2 @ [Got v]
               \<and> set m1 \<subseteq> {EventSet} \<and> set m2 \<subseteq> {EventSet}))
   \<and> (\<forall>x s'. stop E s = Some (x, s') \<longrightarrow> ProcWait \<notin> set (trace s) \<longrightarrow>
         ProcWait \<notin> set (trace s'))"
proof (intro conjI allI impI)
  fix e s1
  assume "disconnect E (emit (LogInfo ''Stopping NumWorks object'') s) = Some (Raised e, s1)"
  then show "stop E s = Some (Raised e, s1)"
    by (simp add: stop_def bnd_def)
next
  fix v s1
  assume d: "disconnect E (emit (LogInfo ''Stopping NumWorks object'') s) = Some (Returned v, s1)"
  then show "stop E s = Some (Returned (),
                      s1\<lparr>writer_eof := True, writer_closed := True, ready := False,
                         trace := trace s1 @ [WriteEof, Close, EventClear]\<rparr>)"
    by (simp add: stop_def)
  from d simple_call_trace [of E _ "emit (LogInfo ''Stopping NumWorks object'') s" _ v s1]
  show "\<exists>b m1 m2.
               encoded E (JObj [(''method'', JStr ''disconnect'')]) = Some b
               \<and> trace s1 = trace s @ m1 @ [Write b, Write [newline], Drain] @ m2 @ [Got v]
               \<and> set m1 \<subseteq> {EventSet} \<and> set m2 \<subseteq> {EventSet}"
    by (simp add: disconnect_def)
next
  fix x s'
  assume "stop E s = Some (x, s')" "ProcWait \<notin> set (trace s)"
  then show "ProcWait \<notin> set (trace s')"
    unfolding stop_def
    by (elim bnd_SomeE) (auto dest!: disconnect_gate simp: gate_step_def)
qed

theorem stop_sequence_witness:
  "\<exists>s'. stop (scripted [] []) (ready_session [line (obj1 ''status'' (quoted ''ok''))])
           = Some (Returned (), s')
      \<and> trace s' =
          [Spawn, EventSet, Write (obj1 ''method'' (quoted ''disconnect'')), Write [newline],
           Drain, Got (JObj [(''status'', JStr ''ok'')]), WriteEof, Close, EventClear]
      \<and> writer_eof s' \<and> writer_closed s' \<and> \<not> ready s'"
proof -
  let ?E = "scripted [] [] :: (bytes list) env"
  let ?s = "ready_session [line (obj1 ''status'' (quoted ''ok''))]"
  obtain s1 where d: "disconnect ?E (emit (LogInfo ''Stopping NumWorks object'') ?s)
                        = Some (Returned (JObj [(''status'', JStr ''ok'')]), s1)"
    and s1: "s1 = snd (the (disconnect ?E (emit (LogInfo ''Stopping NumWorks object'') ?s)))"
    by (simp add: run_simps)
  have tr: "trace s1 =
          [Spawn, EventSet, Write (obj1 ''method'' (quoted ''disconnect'')), Write [newline],
           Drain, Got (JObj [(''status'', JStr ''ok'')])]"
    by (simp add: s1 run_simps)
  from stop_sequence [of ?E ?s] d
  have "stop ?E ?s = Some (Returned (),
          s1\<lparr>writer_eof := True, writer_closed := True, ready := False,
             trace := trace s1 @ [WriteEof, Close, EventClear]\<rparr>)"
    by blast
  then show ?thesis
    by (simp add: tr)
qed

section \<open>Ensuring a connection\<close>

text \<open>
  C3.  \<open>ensure_connected\<close> first waits for the gate: its \<open>ensure_ready\<close> writes nothing,
  returns only with the gate set and stays suspended only with the gate unset, and when
  it stays suspended so does \<open>ensure_connected\<close>, having written nothing.  Once the gate
  is set, \<open>ensure_connected\<close> awaits \<open>status\<close>, after which exactly the status command has
  been written, whatever the outcome.  When \<open>status\<close> raises, \<open>ensure_connected\<close> raises
  the same error, and when \<open>status\<close> stays suspended, so does \<open>ensure_connected\<close>.  When
  \<open>status\<close> returns a dict with a \<open>status\<close> entry: with a truthy entry \<open>ensure_connected\<close>
  returns there, and with a falsy one it awaits \<open>connect\<close>: whatever the outcome of that
  call, exactly the connect command has been written after the status command, and
  \<open>ensure_connected\<close> returns if \<open>connect\<close> returned, raises what it raised, and stays
  suspended if it did.  Here \<open>b\<close> and \<open>c\<close> are the encoded status and connect commands.
\<close>

theorem ensure_connected_requests:
  assumes "encoded E (JObj [(''method'', JStr ''status'')]) = Some b"
    and "encoded E (JObj [(''method'', JStr ''connect'')]) = Some c"
  shows "(\<forall>x s0. ensure_ready E s = Some (x, s0) \<longrightarrow>
            writer s0 = writer s
            \<and> ((x = Returned () \<and> ready s0) \<or> (x = Blocked \<and> \<not> ready s0)))
       \<and> (\<forall>s0. ensure_ready E s = Some (Blocked, s0) \<longrightarrow>
            ensure_connected E s = Some (Blocked, s0))
       \<and> (\<forall>s0. ensure_ready E s = Some (Returned (), s0) \<longrightarrow>
            (\<forall>x s1. status E (s0\<lparr>logger_disabled := True\<rparr>) = Some (x, s1) \<longrightarrow>
               writer s1 = writer s @ b @ [newline])
            \<and> (\<forall>e s1. status E (s0\<lparr>logger_disabled := True\<rparr>) = Some (Raised e, s1) \<longrightarrow>
                 ensure_connected E s = Some (Raised e, s1))
            \<and> (\<forall>s1. status E (s0\<lparr>logger_disabled := True\<rparr>) = Some (Blocked, s1) \<longrightarrow>
                 ensure_connected E s = Some (Blocked, s1))
            \<and> (\<forall>kvs st s1.
                 status E (s0\<lparr>logger_disabled := True\<rparr>) = Some (Returned (JObj kvs), s1) \<longrightarrow>
                 map_of kvs ''status'' = Some st \<longrightarrow>
                 (truthy st \<longrightarrow>
                    ensure_connected E s = Some (Returned (), s1\<lparr>logger_disabled := False\<rparr>))
                 \<and> (\<not> truthy st \<longrightarrow>
                      (\<forall>x s2. connect E (s1\<lparr>logger_disabled := False\<rparr>) = Some (x, s2) \<longrightarrow>
                         writer s2 = writer s @ b @ [newline] @ c @ [newline]
                         \<and> ensure_connected E s
                             = Some (case x of Returned v \<Rightarrow> Returned () | Raised e \<Rightarrow> Raised e
                                     | Blocked \<Rightarrow> Blocked, s2)))))"
proof (intro conjI allI impI)
  fix x s0
  assume h: "ensure_ready E s = Some (x, s0)"
  then show "writer s0 = writer s" by (rule ensure_ready_writer)
  from h show "(x = Returned () \<and> ready s0) \<or> (x = Blocked \<and> \<not> ready s0)"
    by (auto simp: ensure_ready_def split: if_splits option.splits)
next
  fix s0
  assume "ensure_ready E s = Some (Blocked, s0)"
  then show "ensure_connected E s = Some (Blocked, s0)"
    by (simp add: ensure_connected_def bnd_def)
next
  fix s0 x s1
  assume h: "ensure_ready E s = Some (Returned (), s0)"
    and st: "status E (s0\<lparr>logger_disabled := True\<rparr>) = Some (x, s1)"
  have r0: "ready s0" using h by (rule ensure_ready_Returned)
  have w0: "writer s0 = writer s" using h by (rule ensure_ready_writer)
  show "writer s1 = writer s @ b @ [newline]"
    using simple_call_writer [OF st [unfolded status_def] assms(1)] r0 w0 by simp
next
  fix s0 e s1
  assume "ensure_ready E s = Some (Returned (), s0)"
    and "status E (s0\<lparr>logger_disabled := True\<rparr>) = Some (Raised e, s1)"
  then show "ensure_connected E s = Some (Raised e, s1)"
    by (simp add: ensure_connected_def bnd_def)
next
  fix s0 s1
  assume "ensure_ready E s = Some (Returned (), s0)"
    and "status E (s0\<lparr>logger_disabled := True\<rparr>) = Some (Blocked, s1)"
  then show "ensure_connected E s = Some (Blocked, s1)"
    by (simp add: ensure_connected_def bnd_def)
next
  fix s0 kvs st s1
  assume h: "ensure_ready E s = Some (Returned (), s0)"
    and st: "status E (s0\<lparr>logger_disabled := True\<rparr>) = Some (Returned (JObj kvs), s1)"
    and k: "map_of kvs ''status'' = Some st"
  have r0: "ready s0" using h by (rule ensure_ready_Returned)
  have w0: "writer s0 = writer s" using h by (rule ensure_ready_writer)
  have w1: "writer s1 = writer s @ b @ [newline]"
    using simple_call_writer [OF st [unfolded status_def] assms(1)] r0 w0 by simp
  have r1: "ready s1" using st by (rule status_Returned)
  {
    assume "truthy st"
    then show "ensure_connected E s = Some (Returned (), s1\<lparr>logger_disabled := False\<rparr>)"
      using h st k by (simp add: ensure_connected_def)
  }
  {
    fix x s2
    assume nt: "\<not> truthy st"
      and co: "connect E (s1\<lparr>logger_disabled := False\<rparr>) = Some (x, s2)"
    show "writer s2 = writer s @ b @ [newline] @ c @ [newline]"
      using simple_call_writer [OF co [unfolded connect_def] assms(2)] r1 w1 by simp
    show "ensure_connected E s
            = Some (case x of Returned v \<Rightarrow> Returned () | Raised e \<Rightarrow> Raised e
                    | Blocked \<Rightarrow> Blocked, s2)"
      using h st k nt co
      by (cases x) (simp_all add: ensure_connected_def bnd_def)
  }
qed

theorem ensure_connected_requests_witness:
  "(\<exists>s2. ensure_connected (scripted [] [])
             (ready_session [line (obj1 ''status'' ''false''),
                             line (obj1 ''status'' (quoted ''ok''))])
           = Some (Returned (), s2)
         \<and> writer s2 = line (obj1 ''method'' (quoted ''status''))
                        @ line (obj1 ''method'' (quoted ''connect'')))
   \<and> (\<exists>s1. ensure_connected (scripted [] []) (ready_session [line (obj1 ''status'' ''true'')])
           = Some (Returned (), s1)
         \<and> writer s1 = line (obj1 ''method'' (quoted ''status'')))
   \<and> (\<exists>s0. ensure_connected (scripted [] []) (started [] [line (obj1 ''status'' ''true'')])
           = Some (Blocked, s0)
         \<and> writer s0 = [] \<and> \<not> ready s0)"
proof -
  let ?E = "scripted [] [] :: (bytes list) env"
  let ?s = "ready_session [line (obj1 ''status'' ''false''), line (obj1 ''status'' (quoted ''ok''))]"
  let ?t = "ready_session [line (obj1 ''status'' ''true'')]"
  let ?u = "started [] [line (obj1 ''status'' ''true'')]"
  have b: "encoded ?E (JObj [(''method'', JStr ''status'')])
             = Some (obj1 ''method'' (quoted ''status''))"
    and c: "encoded ?E (JObj [(''method'', JStr ''connect'')])
             = Some (obj1 ''method'' (quoted ''connect''))"
    by (simp_all add: run_simps)
  note g = ensure_connected_requests [OF b c]
  have hs: "ensure_ready ?E ?s = Some (Returned (), ?s)"
    and ht: "ensure_ready ?E ?t = Some (Returned (), ?t)"
    by (simp_all add: run_simps)
  obtain u0 where hu: "ensure_ready ?E ?u = Some (Blocked, u0)"
    by (simp add: run_simps)
  have ws: "writer ?s = []" and wt: "writer ?t = []" and wu: "writer ?u = []"
    by (simp_all add: run_simps)
  obtain s1 where st: "status ?E (?s\<lparr>logger_disabled := True\<rparr>)
                         = Some (Returned (JObj [(''status'', JBool False)]), s1)"
    and s1: "s1 = snd (the (status ?E (?s\<lparr>logger_disabled := True\<rparr>)))"
    by (simp add: run_simps)
  obtain s2 where co: "connect ?E (s1\<lparr>logger_disabled := False\<rparr>)
                         = Some (Returned (JObj [(''status'', JStr ''ok'')]), s2)"
    by (simp add: s1 run_simps)
  obtain t1 where tt: "status ?E (?t\<lparr>logger_disabled := True\<rparr>)
                         = Some (Returned (JObj [(''status'', JBool True)]), t1)"
    by (simp add: run_simps)
  have k: "map_of [(''status'', JBool False)] ''status'' = Some (JBool False)"
    "map_of [(''status'', JBool True)] ''status'' = Some (JBool True)"
    by simp_all
  from g [of ?s, THEN conjunct2, THEN conjunct2, rule_format, OF hs, THEN conjunct2,
          THEN conjunct2, THEN conjunct2, rule_format, OF st k(1)] co
  have 1: "ensure_connected ?E ?s = Some (Returned (), s2)"
    "writer s2 = writer ?s @ obj1 ''method'' (quoted ''status'') @ [newline]
                  @ obj1 ''method'' (quoted ''connect'') @ [newline]"
    by auto
  from g [of ?t, THEN conjunct2, THEN conjunct2, rule_format, OF ht, THEN conjunct2,
          THEN conjunct2, THEN conjunct2, rule_format, OF tt k(2)]
  have 2: "ensure_connected ?E ?t = Some (Returned (), t1\<lparr>logger_disabled := False\<rparr>)"
    by auto
  from g [of ?t, THEN conjunct2, THEN conjunct2, rule_format, OF ht, THEN conjunct1,
          rule_format, OF tt]
  have 3: "writer t1 = writer ?t @ obj1 ''method'' (quoted ''status'') @ [newline]" .
  from g [of ?u, THEN conjunct2, THEN conjunct1, rule_format, OF hu]
  have 4: "ensure_connected ?E ?u = Some (Blocked, u0)" .
  from g [of ?u, THEN conjunct1, rule_format, OF hu]
  have 5: "writer u0 = writer ?u" "\<not> ready u0" by auto
  from 1 2 3 4 5 ws wt wu show ?thesis
    by (simp add: line_def)
qed

text \<open>
  The scenario of the specification: the child announces itself, reports that the device
  is not connected, accepts the connection and answers the model request; \<open>get_model\<close>
  returns that answer, having sent three requests.
\<close>

lemma get_model_scenario:
  "\<exists>s'. get_model (scripted [] [])
           (started (line (obj1 ''ready'' ''true''))
              [line (obj1 ''status'' ''false''), line (obj1 ''status'' (quoted ''ok'')),
               line (obj1 ''model'' ''42'')])
         = Some (Returned (JObj [(''model'', JInt 42)]), s')
      \<and> writer s' = line (obj1 ''method'' (quoted ''status''))
                       @ line (obj1 ''method'' (quoted ''connect''))
                       @ line (obj1 ''method'' (quoted ''getModel''))
      \<and> queue s' = [] \<and> ready s'"
  by (simp add: run_simps)

section \<open>The error sink\<close>

text \<open>
  C6, as the code has it.  \<open>_redirect_stderr\<close> is a \<open>while True\<close> with no \<open>break\<close>: at
  end-of-stream \<open>readline\<close> returns \<open>b""\<close>, which the loop skips as it skips a blank line,
  and reads again.  With the stream closed and drained the loop never stops; with bytes
  still buffered it can only stop by raising.
\<close>

theorem redirect_stderr_no_exit:
  assumes "stderr_eof s"
  shows "(stderr s = [] \<longrightarrow> redirect_stderr s = None)
       \<and> (\<forall>s'. redirect_stderr s = Some s' \<longrightarrow> (\<exists>e. stderr_task s' = Died e))"
  using assms redirect_stderr_closed_empty [of s] redirect_stderr_at_eof [of s]
  by blast

theorem redirect_stderr_no_exit_witness:
  "redirect_stderr ((init [])\<lparr>stderr_task := Running, stderr_eof := True\<rparr>) = None
   \<and> redirect_stderr
        ((init [])\<lparr>stderr_task := Running, stderr_eof := True, stderr := [CHR 0xFF]\<rparr>)
       = Some ((init [])\<lparr>stderr_task := Died UnicodeDecodeError, stderr_eof := True\<rparr>)"
proof -
  have "stderr_eof ((init [])\<lparr>stderr_task := Running, stderr_eof := True\<rparr>)"
    "stderr ((init [])\<lparr>stderr_task := Running, stderr_eof := True\<rparr>) = []"
    by (simp_all add: init_def)
  with redirect_stderr_no_exit [of "(init [])\<lparr>stderr_task := Running, stderr_eof := True\<rparr>"]
  have "redirect_stderr ((init [])\<lparr>stderr_task := Running, stderr_eof := True\<rparr>) = None"
    by blast
  moreover have "redirect_stderr
        ((init [])\<lparr>stderr_task := Running, stderr_eof := True, stderr := [CHR 0xFF]\<rparr>)
       = Some ((init [])\<lparr>stderr_task := Died UnicodeDecodeError, stderr_eof := True\<rparr>)"
    by (simp add: init_def run_simps)
  ultimately show ?thesis by blast
qed

text \<open>
  C6, as the specification states it, fails: with the error stream closed and nothing
  buffered the loop does not end.
\<close>

theorem redirect_stderr_spins_at_eof:
  "redirect_stderr ((init [])\<lparr>stderr_task := Running, stderr_eof := True\<rparr>) = None"
  by (rule redirect_stderr_closed_empty) (simp_all add: init_def)

section \<open>The reader\<close>

text \<open>
  What the reader does with lines it can read: each valid UTF-8, within the stream
  limit, and either accepted by \<open>json.loads\<close> or rejected with \<open>JSONDecodeError\<close>.  It
  consumes them all and suspends, still alive: a rejected line adds nothing to the queue
  and, unless the logger is disabled, one warning to the log; the lines before and after
  it that \<open>json.loads\<close> accepts are queued in the order received.
\<close>

lemma read_skips_rejected:
  assumes "\<forall>l\<in>set (before @ bad # after). readable E l"
    and "loads E (text_of bad) = Inl JSONDecodeError"
    and "reader s = wire (before @ bad # after)" and "\<not> reader_eof s"
  shows "\<exists>s'. read E s = Some s'
           \<and> queue s' = queue s @ entries E before @ entries E after
           \<and> logs s' = logs s @ (if logger_disabled s then []
                                  else warnings E before @ LogWarning (text_of bad)
                                         # warnings E after)
           \<and> reader s' = [] \<and> read_task s' = read_task s"
proof -
  have e: "entries E (before @ bad # after) = entries E before @ entries E after"
    using assms(2) by (simp add: entries_def map_filter_def)
  have w: "warnings E (before @ bad # after)
             = warnings E before @ LogWarning (text_of bad) # warnings E after"
    using assms(2) by (simp add: warnings_def)
  show ?thesis
    using read_lines [OF assms(1,3,4)] by (simp add: e w)
qed

lemma read_skips_rejected_example:
  "\<exists>s'. read (scripted [] []) garbled = Some s'
      \<and> queue s' = [JObj [(''status'', JBool True)], JObj [(''model'', JInt 42)]]
      \<and> logs s' = [LogInfo ''Initializing NumWorks object'', LogWarning (str ''not-json'')]
      \<and> reader s' = [] \<and> read_task s' = Running"
proof -
  let ?E = "scripted [] [] :: (bytes list) env"
  have 1: "\<forall>l\<in>set ([obj1 ''status'' ''true''] @ ''not-json'' # [obj1 ''model'' ''42'']).
             readable ?E l"
    by (simp add: wire_simps run_simps)
  have 2: "loads ?E (text_of ''not-json'') = Inl JSONDecodeError"
    by (simp add: wire_simps run_simps)
  have 3: "reader garbled = wire ([obj1 ''status'' ''true''] @ ''not-json'' # [obj1 ''model'' ''42''])"
    and 4: "\<not> reader_eof garbled"
    by (simp_all add: garbled_def init_def)
  from read_skips_rejected [OF 1 2 3 4] show ?thesis
    by (simp add: wire_simps run_simps)
qed

text \<open>
  C5.  The specification says that a malformed line is logged and skipped, that the
  reader continues and that valid lines after it are still queued; the code's own
  \<open>try\<close> around \<open>json.loads\<close> and its warning \<open>Invalid JSON\<close> say the same.  The code
  does not do it for every malformed line: \<open>data.decode("utf-8")\<close> stands outside the
  \<open>try\<close>.  Here the child prints the line \<open>{"status": true}\<close>, then the single byte
  \<open>0xff\<close>, then \<open>{"model": 42}\<close>.  The reader queues the first message and then dies
  with \<open>UnicodeDecodeError\<close>: nothing is logged, and the third line stays unread in the
  pipe.
\<close>

theorem read_dies_on_undecodable_line:
  "read (scripted [] []) undecodable
     = Some (undecodable\<lparr>reader := wire [obj1 ''model'' ''42''],
                          queue := [JObj [(''status'', JBool True)]],
                          read_task := Died UnicodeDecodeError\<rparr>)"
  by (simp add: wire_simps run_simps)

section \<open>Writer and reader\<close>




section \<open>Calls in sequence\<close>




end
